theory Spec2Isabelle
  imports Main
begin

section \<open>Time\<close>

text \<open>
  An instant is a number of nanoseconds since a fixed epoch; a \<^verbatim>\<open>time.Duration\<close> is
  a signed 64-bit count of nanoseconds. \<^verbatim>\<open>Time.Sub\<close> saturates at the ends of that
  range, and \<^verbatim>\<open>time.Since(t)\<close> is \<^verbatim>\<open>time.Now().Sub(t)\<close>.
\<close>

type_synonym time = int
type_synonym duration = int
type_synonym error = string

definition maxDuration :: duration where
  "maxDuration = 2 ^ 63 - 1"

definition minDuration :: duration where
  "minDuration = - (2 ^ 63)"

definition Second :: duration where
  "Second = 1000000000"

definition Minute :: duration where
  "Minute = 60 * Second"

definition Sub :: "time \<Rightarrow> time \<Rightarrow> duration" where
  "Sub t u =
     (let d = t - u in
      if maxDuration < d then maxDuration
      else if d < minDuration then minDuration
      else d)"

section \<open>Data of the boot sequence\<close>

text \<open>
  The fields of \<^verbatim>\<open>discordgo.User\<close> and \<^verbatim>\<open>discordgo.Member\<close> that \<^verbatim>\<open>main\<close> reads. A
  member list is a slice of pointers, so an entry may be nil (\<open>None\<close>), and so may a
  member's \<^verbatim>\<open>User\<close>.
\<close>

record user =
  ID :: string
  Avatar :: string

record member =
  User :: "user option"

record guild_config =
  GuildID :: string

datatype priority = PriorityHigh | PriorityNormal | PriorityLow

datatype service_type = TypeMonitoring | TypeAutomod

text \<open>What a call that may block does: it returns a value, or it never returns.\<close>

datatype 'a outcome = Returns 'a | Hangs

text \<open>
  The arguments of \<^verbatim>\<open>service.NewServiceWrapper\<close>. A hook is a closure over a service;
  it is represented by what calling it does.
\<close>

record service_wrapper =
  name :: string
  stype :: service_type
  prio :: priority
  deps :: "string list"
  start :: "error option outcome"
  stop :: "error option outcome"
  health :: bool

text \<open>What a call of \<^verbatim>\<open>StartAll\<close> or \<^verbatim>\<open>StopAll\<close> does: the hooks it invoked, in order,
  and the error it returned, or the hooks it invoked before it blocked for good.\<close>

datatype manager_call =
    Done "string list" "error option"
  | Blocked "string list"

text \<open>
  Every effect of \<^verbatim>\<open>main\<close> on a collaborator, in the order the calls are made.
  \<open>Notify\<close> is a message sent by a running service through its notifier; \<^verbatim>\<open>main\<close> itself
  has no call that produces one.
\<close>

datatype event =
    GetHeartbeatCall
  | LogInfo string
  | LogError string
  | GuildMembersCall string
  | UpsertAvatar string string string time
  | SetHeartbeatCall time
  | NewServiceManager
  | NewMonitoringService
  | NewAutomodService
  | NewRouter
  | NewNotificationAdapters
  | SetAdapters
  | RegisterCall string
  | StartAllCall
  | StartHook string
  | StopAllCall
  | StopHook string
  | NewCommandHandler
  | SetupCommands
  | RegisterAdminCommands
  | WithTimeout duration
  | WaitForInterrupt
  | StoreClose
  | ShutdownCancel
  | Notify string

text \<open>
  The collaborators' answers. \<open>clock E k\<close> is what the \<open>k\<close>-th call of \<^verbatim>\<open>time.Now\<close>
  returns. The service manager (\<^verbatim>\<open>pkg/service\<close>) is a parameter: the boot sequence is
  verified for every behaviour of \<^verbatim>\<open>Register\<close>, \<^verbatim>\<open>StartAll\<close> and \<^verbatim>\<open>StopAll\<close>.
\<close>

record env =
  clock :: "nat \<Rightarrow> time"
  storeNil :: bool
  GetHeartbeat :: "time \<times> bool \<times> error option"
  Config :: "guild_config list option"
  GuildMembers :: "string \<Rightarrow> error + member option list"
  SetHeartbeat :: "error option"
  NewMonitoringServiceErr :: "error option"
  monitoringStart :: "error option outcome"
  monitoringStop :: "error option outcome"
  automodStart :: "unit outcome"
  automodStop :: "unit outcome"
  Register :: "service_wrapper list \<Rightarrow> service_wrapper \<Rightarrow> error option"
  StartAll :: "service_wrapper list \<Rightarrow> manager_call"
  SetupCommandsErr :: "error option"
  interrupt :: bool
  StopAll :: "service_wrapper list \<Rightarrow> manager_call"
  Close :: "error option"

text \<open>The state threaded through \<^verbatim>\<open>main\<close>: how often the clock was read, and the
  effects so far.\<close>

record world =
  ticks :: nat
  trace :: "event list"

definition emit :: "event \<Rightarrow> world \<Rightarrow> world" where
  "emit e w = w\<lparr>trace := trace w @ [e]\<rparr>"

definition Now :: "env \<Rightarrow> world \<Rightarrow> time \<times> world" where
  "Now E w = (clock E (ticks w), w\<lparr>ticks := Suc (ticks w)\<rparr>)"

section \<open>Downtime-aware silent avatar refresh (main.go, lines 114 to 145)\<close>

text \<open>Lines 129 to 132: an empty avatar hash is recorded as \<^verbatim>\<open>"default"\<close>.\<close>

definition avatarHash :: "user \<Rightarrow> string" where
  "avatarHash u = (if Avatar u = [] then ''default'' else Avatar u)"

text \<open>Lines 125 to 134: the loop over the members of one guild.\<close>

fun refresh_members :: "env \<Rightarrow> string \<Rightarrow> member option list \<Rightarrow> world \<Rightarrow> world" where
  "refresh_members E gid [] w = w"
| "refresh_members E gid (m # ms) w =
     (case m of
        None \<Rightarrow> refresh_members E gid ms w
      | Some mem \<Rightarrow>
          (case User mem of
             None \<Rightarrow> refresh_members E gid ms w
           | Some u \<Rightarrow>
               (let (t, w1) = Now E w
                in refresh_members E gid ms (emit (UpsertAvatar gid (ID u) (avatarHash u) t) w1))))"

text \<open>Lines 119 to 135: the loop over the configured guilds.\<close>

fun refresh_guilds :: "env \<Rightarrow> guild_config list \<Rightarrow> world \<Rightarrow> world" where
  "refresh_guilds E [] w = w"
| "refresh_guilds E (gcfg # gs) w =
     (let w1 = emit (GuildMembersCall (GuildID gcfg)) w in
      case GuildMembers E (GuildID gcfg) of
        Inl err \<Rightarrow>
          refresh_guilds E gs
            (emit (LogError (''Failed to list members for silent refresh for guild ''
                     @ GuildID gcfg @ '': '' @ err)) w1)
      | Inr members \<Rightarrow>
          refresh_guilds E gs (refresh_members E (GuildID gcfg) members w1))"

text \<open>Lines 117 to 137: the refresh pass.\<close>

definition refresh_pass :: "env \<Rightarrow> world \<Rightarrow> world" where
  "refresh_pass E w =
     (let w1 = emit (LogInfo ''Detected downtime > 30m; performing silent avatar refresh before enabling notifications'') w;
          w2 = (case Config E of None \<Rightarrow> w1 | Some guilds \<Rightarrow> refresh_guilds E guilds w1)
      in emit (LogInfo ''Silent avatar refresh completed'') w2)"

text \<open>Line 116: \<^verbatim>\<open>!ok || time.Since(lastHB) > 30*time.Minute\<close>. The clock is read only
  when \<^verbatim>\<open>ok\<close> holds, as \<^verbatim>\<open>||\<close> does not evaluate its right operand otherwise.\<close>

definition downtime_detected :: "env \<Rightarrow> time \<Rightarrow> bool \<Rightarrow> world \<Rightarrow> bool \<times> world" where
  "downtime_detected E lastHB ok w =
     (if \<not> ok then (True, w)
      else (let (now, w1) = Now E w in (30 * Minute < Sub now lastHB, w1)))"

text \<open>Lines 115 to 144: the body of \<^verbatim>\<open>if store != nil\<close>.\<close>

definition reconcile :: "env \<Rightarrow> world \<Rightarrow> world" where
  "reconcile E w =
     (let w1 = emit GetHeartbeatCall w;
          (lastHB, ok, err) = GetHeartbeat E;
          w2 = (case err of
                  None \<Rightarrow>
                    (let (stale, wa) = downtime_detected E lastHB ok w1 in
                     if stale then refresh_pass E wa
                     else emit (LogInfo ''No significant downtime detected; skipping silent avatar refresh'') wa)
                | Some e \<Rightarrow>
                    emit (LogError (''Failed to read last heartbeat; skipping downtime check: '' @ e)) w1);
          (t, w3) = Now E w2
      in emit (SetHeartbeatCall t) w3)"

section \<open>Service wrappers, registration and start (main.go, lines 147 to 218)\<close>

text \<open>How the process stands when the modelled part of \<^verbatim>\<open>main\<close> is over: it called
  \<^verbatim>\<open>os.Exit\<close>, it returned from \<^verbatim>\<open>main\<close>, or it is blocked in a call for good.\<close>

datatype status = Exit int | Return | Stuck

text \<open>Lines 161 to 169.\<close>

definition monitoringWrapper :: "env \<Rightarrow> service_wrapper" where
  "monitoringWrapper E =
     \<lparr>name = ''monitoring'', stype = TypeMonitoring, prio = PriorityHigh, deps = [],
      start = monitoringStart E, stop = monitoringStop E, health = True\<rparr>"

text \<open>Lines 177 to 185: both hooks of the automod wrapper return nil once the
  service's method has returned.\<close>

definition automodWrapper :: "env \<Rightarrow> service_wrapper" where
  "automodWrapper E =
     \<lparr>name = ''automod'', stype = TypeAutomod, prio = PriorityNormal, deps = [],
      start = (case automodStart E of Returns u \<Rightarrow> Returns None | Hangs \<Rightarrow> Hangs),
      stop = (case automodStop E of Returns u \<Rightarrow> Returns None | Hangs \<Rightarrow> Hangs),
      health = True\<rparr>"

definition registered :: "env \<Rightarrow> service_wrapper list" where
  "registered E = [monitoringWrapper E, automodWrapper E]"

definition emits :: "event list \<Rightarrow> world \<Rightarrow> world" where
  "emits es w = w\<lparr>trace := trace w @ es\<rparr>"

text \<open>Lines 221 to 233: the deferred function. The context of 30 seconds is created
  and cancelled, and nothing else is done with it: \<^verbatim>\<open>StopAll\<close> has no parameter.\<close>

definition shutdown :: "env \<Rightarrow> world \<Rightarrow> status \<times> world" where
  "shutdown E w =
     (let w1 = emit (LogInfo ''Shutting down services...'') w;
          w2 = emit (WithTimeout (30 * Second)) w1;
          w3 = emit StopAllCall w2
      in case StopAll E (registered E) of
           Blocked hooks \<Rightarrow> (Stuck, emits (map StopHook hooks) w3)
         | Done hooks err \<Rightarrow>
             (let w4 = emits (map StopHook hooks) w3;
                  w5 = (case err of
                          None \<Rightarrow> w4
                        | Some e \<Rightarrow> emit (LogError (''Some services failed to stop cleanly: '' @ e)) w4);
                  w6 = (if storeNil E then w5 else emit StoreClose w5)
              in (Return, emit ShutdownCancel w6)))"

text \<open>Lines 235 to 242, followed by the deferred function when \<^verbatim>\<open>main\<close> returns.\<close>

definition wait_and_stop :: "env \<Rightarrow> world \<Rightarrow> status \<times> world" where
  "wait_and_stop E w =
     (let w1 = emit (LogInfo ''Slash commands sync completed'') w;
          w2 = emit (LogInfo ''Bot initialized successfully!'') w1;
          w3 = emit (LogInfo ''Bot running. Monitoring all configured guilds. Press Ctrl+C to stop...'') w2;
          w4 = emit WaitForInterrupt w3
      in if interrupt E then shutdown E (emit (LogInfo ''Stopping bot...'') w4)
         else (Stuck, w4))"

text \<open>Lines 208 to 218.\<close>

definition setup_commands :: "env \<Rightarrow> world \<Rightarrow> status \<times> world" where
  "setup_commands E w =
     (let w1 = emit NewCommandHandler w;
          w2 = emit SetupCommands w1
      in case SetupCommandsErr E of
           Some err \<Rightarrow>
             (Exit 1, emit (LogError ''Error configuring slash commands'')
                        (emit (LogError (''Error configuring slash commands: '' @ err)) w2))
         | None \<Rightarrow> wait_and_stop E (emit RegisterAdminCommands w2))"

text \<open>Lines 200 to 206.\<close>

definition start_all :: "env \<Rightarrow> world \<Rightarrow> status \<times> world" where
  "start_all E w =
     (let w1 = emit (LogInfo ''Starting all services...'') w;
          w2 = emit StartAllCall w1
      in case StartAll E (registered E) of
           Blocked hooks \<Rightarrow> (Stuck, emits (map StartHook hooks) w2)
         | Done hooks (Some err) \<Rightarrow>
             (Exit 1, emit (LogError ''Failed to start services'')
                        (emit (LogError (''Failed to start services: '' @ err))
                           (emits (map StartHook hooks) w2)))
         | Done hooks None \<Rightarrow> setup_commands E (emits (map StartHook hooks) w2))"

text \<open>Lines 187 to 198.\<close>

definition register_services :: "env \<Rightarrow> world \<Rightarrow> status \<times> world" where
  "register_services E w =
     (let w1 = emit (RegisterCall ''monitoring'') w in
      case Register E [] (monitoringWrapper E) of
        Some err \<Rightarrow>
          (Exit 1, emit (LogError ''Failed to register monitoring service'')
                     (emit (LogError (''Failed to register monitoring service: '' @ err)) w1))
      | None \<Rightarrow>
          (let w2 = emit (RegisterCall ''automod'') w1 in
           case Register E [monitoringWrapper E] (automodWrapper E) of
             Some err \<Rightarrow>
               (Exit 1, emit (LogError ''Failed to register automod service'')
                          (emit (LogError (''Failed to register automod service: '' @ err)) w2))
           | None \<Rightarrow> start_all E w2))"

text \<open>Lines 147 to 185.\<close>

definition services :: "env \<Rightarrow> world \<Rightarrow> status \<times> world" where
  "services E w =
     (let w1 = emit NewServiceManager w;
          w2 = emit (LogInfo ''Creating service wrappers...'') w1;
          w3 = emit NewMonitoringService w2
      in case NewMonitoringServiceErr E of
           Some err \<Rightarrow>
             (Exit 1, emit (LogError ''Failed to create monitoring service'')
                        (emit (LogError (''Failed to create monitoring service: '' @ err)) w3))
         | None \<Rightarrow>
             register_services E
               (emit SetAdapters (emit NewNotificationAdapters (emit NewRouter
                  (emit NewAutomodService w3)))))"

text \<open>Lines 113 to 242: \<^verbatim>\<open>main\<close> from the downtime check on.\<close>

definition boot :: "env \<Rightarrow> world \<Rightarrow> status \<times> world" where
  "boot E w = services E (if storeNil E then w else reconcile E w)"

definition w0 :: world where
  "w0 = \<lparr>ticks = 0, trace = []\<rparr>"

section \<open>Observations on a run\<close>

text \<open>The cache upserts of a trace, and the guilds whose members were fetched.\<close>

fun is_upsert :: "event \<Rightarrow> bool" where
  "is_upsert (UpsertAvatar g u a t) = True"
| "is_upsert e = False"

definition upserts :: "event list \<Rightarrow> event list" where
  "upserts tr = filter is_upsert tr"

fun fetch_of :: "event \<Rightarrow> string list" where
  "fetch_of (GuildMembersCall g) = [g]"
| "fetch_of e = []"

definition fetches :: "event list \<Rightarrow> string list" where
  "fetches tr = concat (map fetch_of tr)"

text \<open>The users of the members that are neither nil nor without a user.\<close>

definition valid_users :: "member option list \<Rightarrow> user list" where
  "valid_users ms = concat (map (\<lambda>m. case m of None \<Rightarrow> [] | Some mem \<Rightarrow> (case User mem of None \<Rightarrow> [] | Some u \<Rightarrow> [u])) ms)"

text \<open>One upsert per pair of a guild and a user, the \<open>i\<close>-th with the clock's reading
  number \<open>k + i\<close>: each upsert reads the clock once.\<close>

definition stamped :: "env \<Rightarrow> nat \<Rightarrow> (string \<times> user) list \<Rightarrow> event list" where
  "stamped E k ps = map (\<lambda>(i, (g, u)). UpsertAvatar g (ID u) (avatarHash u) (clock E i)) (enumerate k ps)"

text \<open>The pairs of a guild and a user to refresh: for every guild whose members could be
  fetched, in the order of the configuration, the users of its members.\<close>

definition guild_pairs :: "env \<Rightarrow> guild_config list \<Rightarrow> (string \<times> user) list" where
  "guild_pairs E gs = concat (map (\<lambda>gcfg. case GuildMembers E (GuildID gcfg) of Inl err \<Rightarrow> [] | Inr ms \<Rightarrow> map (Pair (GuildID gcfg)) (valid_users ms)) gs)"

text \<open>What lines 115 to 144 do when the clock was read \<open>k\<close> times before.\<close>

definition reconcile_events :: "env \<Rightarrow> nat \<Rightarrow> event list" where
  "reconcile_events E k = trace (reconcile E \<lparr>ticks = k, trace = []\<rparr>)"

text \<open>What the refresh pass does when the clock was read \<open>k\<close> times before.\<close>

definition pass_events :: "env \<Rightarrow> nat \<Rightarrow> event list" where
  "pass_events E k = trace (refresh_pass E \<lparr>ticks = k, trace = []\<rparr>)"

text \<open>The configured guilds; a nil configuration has none.\<close>

definition configured :: "env \<Rightarrow> guild_config list" where
  "configured E = (case Config E of None \<Rightarrow> [] | Some guilds \<Rightarrow> guilds)"

text \<open>The effects of the refresh pass: a cache upsert, a read of a guild's members and a
  line of the log.\<close>

fun pass_effect :: "event \<Rightarrow> bool" where
  "pass_effect (UpsertAvatar g u a t) = True"
| "pass_effect (GuildMembersCall g) = True"
| "pass_effect (LogInfo m) = True"
| "pass_effect (LogError m) = True"
| "pass_effect e = False"

text \<open>A boot after an hour of downtime: three guilds, the second of which cannot be
  fetched; the others have a nil member, a member without user, a user without avatar and
  a user with one. The heartbeat cannot be written.\<close>

definition demo :: env where
  "demo =
     \<lparr>clock = (\<lambda>k. 3600 * Second + int k),
      storeNil = False,
      GetHeartbeat = (0, True, None),
      Config = Some [\<lparr>GuildID = ''g1''\<rparr>, \<lparr>GuildID = ''g2''\<rparr>, \<lparr>GuildID = ''g3''\<rparr>],
      GuildMembers = (\<lambda>g. if g = ''g2'' then Inl ''timeout''
                          else Inr [None, Some \<lparr>User = None\<rparr>,
                                    Some \<lparr>User = Some \<lparr>ID = ''u1'', Avatar = []\<rparr>\<rparr>,
                                    Some \<lparr>User = Some \<lparr>ID = ''u2'', Avatar = ''abc''\<rparr>\<rparr>]),
      SetHeartbeat = Some ''database is locked'',
      NewMonitoringServiceErr = None,
      monitoringStart = Returns None,
      monitoringStop = Returns None,
      automodStart = Returns (),
      automodStop = Returns (),
      Register = (\<lambda>rs s. None),
      StartAll = (\<lambda>svcs. Done (map name svcs) None),
      SetupCommandsErr = None,
      interrupt = True,
      StopAll = (\<lambda>svcs. Done (rev (map name svcs)) None),
      Close = None\<rparr>"

text \<open>The events and the final status of a stage of \<^verbatim>\<open>main\<close> run on its own.\<close>

definition events_of :: "(world \<Rightarrow> status \<times> world) \<Rightarrow> event list" where
  "events_of f = trace (snd (f w0))"

definition status_of :: "(world \<Rightarrow> status \<times> world) \<Rightarrow> status" where
  "status_of f = fst (f w0)"

text \<open>Line 227: the log line for an error of \<^verbatim>\<open>StopAll\<close>.\<close>

definition stop_log :: "error option \<Rightarrow> event list" where
  "stop_log err = (case err of None \<Rightarrow> []
     | Some e \<Rightarrow> [LogError (''Some services failed to stop cleanly: '' @ e)])"

text \<open>The events of the stop sequence: a stop hook and the close of the store.\<close>

fun stop_phase :: "event \<Rightarrow> bool" where
  "stop_phase (StopHook n) = True"
| "stop_phase StoreClose = True"
| "stop_phase e = False"

text \<open>The calls that only the reconciliation makes.\<close>

fun reconcile_only :: "event \<Rightarrow> bool" where
  "reconcile_only GetHeartbeatCall = True"
| "reconcile_only (GuildMembersCall g) = True"
| "reconcile_only (UpsertAvatar g u a t) = True"
| "reconcile_only (SetHeartbeatCall t) = True"
| "reconcile_only e = False"

text \<open>A trace in which the store, if it is closed at all, is closed right after a call
  of \<^verbatim>\<open>StopAll\<close> that returned, with no stop hook and no close before that call.\<close>

definition closes_after_stop :: "env \<Rightarrow> event list \<Rightarrow> bool" where
  "closes_after_stop E tr \<longleftrightarrow>
     StoreClose \<notin> set tr \<or>
     (\<exists>zs hooks err. StopAll E (registered E) = Done hooks err \<and>
        tr = zs @ StopAllCall # map StopHook hooks @ stop_log err @ [StoreClose, ShutdownCancel] \<and>
        \<not> list_ex stop_phase zs)"

text \<open>The same boot with a heartbeat ten minutes old.\<close>

definition demo_fresh :: env where
  "demo_fresh = demo\<lparr>GetHeartbeat := (3000 * Second, True, None)\<rparr>"

text \<open>The same boot with a \<^verbatim>\<open>StopAll\<close> that invokes both stop hooks and returns the error of
  a failed one.\<close>

definition demo_stop_fails :: env where
  "demo_stop_fails =
     demo_fresh\<lparr>StopAll := (\<lambda>svcs. Done [''automod'', ''monitoring'']
                                      (Some ''monitoring: connection reset''))\<rparr>"

text \<open>A trace that ends with a call of \<^verbatim>\<open>StopAll\<close> that returned, the stop hooks it invoked,
  the log line for its error, the close of the store and the cancel of the context, with no
  stop hook and no close before that call.\<close>

definition closes_on_return :: "env \<Rightarrow> event list \<Rightarrow> bool" where
  "closes_on_return E tr \<longleftrightarrow>
     (\<exists>zs hooks err. StopAll E (registered E) = Done hooks err \<and>
        tr = zs @ StopAllCall # map StopHook hooks @ stop_log err
               @ (if storeNil E then [] else [StoreClose]) @ [ShutdownCancel] \<and>
        \<not> list_ex stop_phase zs)"

section \<open>The start order of the service manager, from the specification\<close>

text \<open>Modelled from the spec: the errors of the start path (section 7). The service manager
  (\<^verbatim>\<open>pkg/service\<close>) is not among the sources.\<close>

datatype start_error =
    UnknownDependency string string
  | CyclicDependency "string list"
  | StartFailure string error

text \<open>Modelled from the spec: a registered service with its registration index (section 4.3,
  step 3).\<close>

type_synonym entry = "nat \<times> service_wrapper"

text \<open>Modelled from the spec: \<^verbatim>\<open>High\<close> before \<^verbatim>\<open>Normal\<close> before \<^verbatim>\<open>Low\<close> (section 4.3, step 3).\<close>

fun rank :: "priority \<Rightarrow> nat" where
  "rank PriorityHigh = 0"
| "rank PriorityNormal = 1"
| "rank PriorityLow = 2"

text \<open>Modelled from the spec: step 1 of \<^verbatim>\<open>StartAll\<close> (section 4.3), the first declared dependency
  that is not a registered identity.\<close>

definition unknown_dependency :: "service_wrapper list \<Rightarrow> (string \<times> string) option" where
  "unknown_dependency svcs =
     find (\<lambda>(s, d). d \<notin> set (map name svcs))
       (concat (map (\<lambda>s. map (Pair (name s)) (deps s)) svcs))"

text \<open>Modelled from the spec: the identities of a list of registered services.\<close>

definition started_names :: "entry list \<Rightarrow> string list" where
  "started_names es = map (\<lambda>e. name (snd e)) es"

text \<open>Modelled from the spec: a service may start once all of its dependencies have started
  (section 3, invariants).\<close>

definition ready :: "entry list \<Rightarrow> entry \<Rightarrow> bool" where
  "ready started e = list_all (\<lambda>d. d \<in> set (started_names started)) (deps (snd e))"

text \<open>Modelled from the spec: the tie-break of section 4.3, step 3: by priority, then by
  registration order.\<close>

definition precedes :: "entry \<Rightarrow> entry \<Rightarrow> bool" where
  "precedes a b \<longleftrightarrow>
     rank (prio (snd a)) < rank (prio (snd b))
     \<or> (rank (prio (snd a)) = rank (prio (snd b)) \<and> fst a < fst b)"

text \<open>Modelled from the spec: the service to start next among those that may start, the first
  by priority and registration order.\<close>

fun pick :: "entry list \<Rightarrow> entry option" where
  "pick [] = None"
| "pick (e # es) =
     (case pick es of
        None \<Rightarrow> Some e
      | Some b \<Rightarrow> if precedes b e then Some b else Some e)"

lemma pick_in: "pick es = Some e \<Longrightarrow> e \<in> set es"
  by (induction es arbitrary: e) (auto split: option.splits if_splits)

text \<open>Modelled from the spec: steps 2 and 3 of \<^verbatim>\<open>StartAll\<close> (section 4.3). The services
  that are left when none may start contain a dependency cycle; they are returned in place
  of the cycle's path.\<close>

function start_order :: "entry list \<Rightarrow> entry list \<Rightarrow> string list + entry list" where
  "start_order pending started =
     (if pending = [] then Inr started
      else case pick (filter (ready started) pending) of
             None \<Rightarrow> Inl (started_names pending)
           | Some e \<Rightarrow> start_order (remove1 e pending) (started @ [e]))"
  by pat_completeness auto
termination
proof (relation "measure (\<lambda>(pending, started). length pending)")
  show "wf (measure (\<lambda>(pending, started). length pending))"
    by simp
next
  fix pending started :: "entry list" and e :: entry
  assume "pending \<noteq> []" and "pick (filter (ready started) pending) = Some e"
  then have "e \<in> set pending"
    using pick_in by fastforce
  then show "((remove1 e pending, started @ [e]), (pending, started))
               \<in> measure (\<lambda>(pending, started). length pending)"
    using length_pos_if_in_set [of e pending] by (simp add: length_remove1)
qed

text \<open>Modelled from the spec: steps 1 to 3 of \<^verbatim>\<open>StartAll\<close> (section 4.3), the start order or
  the structural error.\<close>

definition resolve :: "service_wrapper list \<Rightarrow> start_error + service_wrapper list" where
  "resolve svcs =
     (case unknown_dependency svcs of
        Some (s, d) \<Rightarrow> Inl (UnknownDependency s d)
      | None \<Rightarrow>
          (case start_order (enumerate 0 svcs) [] of
             Inl stuck \<Rightarrow> Inl (CyclicDependency stuck)
           | Inr ord \<Rightarrow> Inr (map snd ord)))"

text \<open>Modelled from the spec: the text of an error of the start path.\<close>

fun describe :: "start_error \<Rightarrow> error" where
  "describe (UnknownDependency s d) = ''UnknownDependency('' @ s @ '', '' @ d @ '')''"
| "describe (CyclicDependency p) = ''CyclicDependency('' @ concat (map (\<lambda>n. n @ '' '') p) @ '')''"
| "describe (StartFailure s cause) = ''StartFailure('' @ s @ '', '' @ cause @ '')''"

text \<open>Modelled from the spec: steps 4 and 5 of \<^verbatim>\<open>StartAll\<close> (section 4.3): the start hooks
  are invoked one after the other in the resolved order, and the first failure stops the
  sequence.\<close>

fun run_starts :: "service_wrapper list \<Rightarrow> manager_call" where
  "run_starts [] = Done [] None"
| "run_starts (s # ss) =
     (case start s of
        Hangs \<Rightarrow> Blocked [name s]
      | Returns (Some cause) \<Rightarrow> Done [name s] (Some (describe (StartFailure (name s) cause)))
      | Returns None \<Rightarrow>
          (case run_starts ss of
             Done hooks r \<Rightarrow> Done (name s # hooks) r
           | Blocked hooks \<Rightarrow> Blocked (name s # hooks)))"

text \<open>Modelled from the spec: \<^verbatim>\<open>StartAll\<close> of the service manager (section 4.3), which is
  not among the sources.\<close>

definition StartAll_spec :: "service_wrapper list \<Rightarrow> manager_call" where
  "StartAll_spec svcs =
     (case resolve svcs of
        Inl e \<Rightarrow> Done [] (Some (describe e))
      | Inr ord \<Rightarrow> run_starts ord)"

declare start_order.simps [simp del]

text \<open>The dependency edges of the registered services, from a service's identity to the
  identity it depends on.\<close>

definition dep_graph :: "service_wrapper list \<Rightarrow> (string \<times> string) set" where
  "dep_graph svcs = (\<Union>s \<in> set svcs. (\<lambda>d. (name s, d)) ` set (deps s))"

text \<open>A service whose hooks return nil, for the examples of the spec's section 8.\<close>

definition svc :: "string \<Rightarrow> priority \<Rightarrow> string list \<Rightarrow> service_wrapper" where
  "svc n p ds = \<lparr>name = n, stype = TypeMonitoring, prio = p, deps = ds,
                 start = Returns None, stop = Returns None, health = True\<rparr>"

text \<open>The first example of the spec's section 8, registered in the order Z, Y, X: Y and Z
  depend on X, and Y has the higher priority.\<close>

definition spec_example :: "service_wrapper list" where
  "spec_example =
     [svc ''Z'' PriorityNormal [''X''], svc ''Y'' PriorityHigh [''X''], svc ''X'' PriorityLow []]"

section \<open>The refresh loops in closed form\<close>

lemma stamped_Nil [simp]: "stamped E k [] = []"
  by (simp add: stamped_def)

lemma stamped_Cons [simp]:
  "stamped E k ((g, u) # ps) = UpsertAvatar g (ID u) (avatarHash u) (clock E k) # stamped E (Suc k) ps"
  by (simp add: stamped_def)

lemma stamped_append:
  "stamped E k (ps @ qs) = stamped E k ps @ stamped E (k + length ps) qs"
  by (induction ps arbitrary: k) auto

lemma valid_users_simps [simp]:
  "valid_users [] = []"
  "valid_users (None # ms) = valid_users ms"
  "User mem = None \<Longrightarrow> valid_users (Some mem # ms) = valid_users ms"
  "User mem = Some u \<Longrightarrow> valid_users (Some mem # ms) = u # valid_users ms"
  by (simp_all add: valid_users_def)

lemma refresh_members_eq:
  "refresh_members E gid ms w =
     w\<lparr>ticks := ticks w + length (valid_users ms),
       trace := trace w @ stamped E (ticks w) (map (Pair gid) (valid_users ms))\<rparr>"
proof (induction ms arbitrary: w)
  case Nil
  show ?case by simp
next
  case (Cons m ms)
  show ?case
  proof (cases m)
    case None
    then show ?thesis using Cons.IH by simp
  next
    case (Some mem)
    show ?thesis
    proof (cases "User mem")
      case None
      then show ?thesis using Some Cons.IH by simp
    next
      case (Some u)
      then show ?thesis using \<open>m = Some mem\<close> Cons.IH
        by (simp add: Now_def emit_def)
    qed
  qed
qed

lemma upserts_simps [simp]:
  "upserts [] = []"
  "upserts (e # es) = (if is_upsert e then e # upserts es else upserts es)"
  by (simp_all add: upserts_def)

lemma fetches_simps [simp]:
  "fetches [] = []"
  "fetches (e # es) = fetch_of e @ fetches es"
  by (simp_all add: fetches_def)

lemma upserts_append [simp]: "upserts (xs @ ys) = upserts xs @ upserts ys"
  by (simp add: upserts_def)

lemma fetches_append [simp]: "fetches (xs @ ys) = fetches xs @ fetches ys"
  by (simp add: fetches_def)

lemma upserts_stamped [simp]: "upserts (stamped E k ps) = stamped E k ps"
  by (induction ps arbitrary: k) auto

lemma fetches_stamped [simp]: "fetches (stamped E k ps) = []"
  by (induction ps arbitrary: k) auto

lemma guild_pairs_simps [simp]:
  "guild_pairs E [] = []"
  "GuildMembers E (GuildID gcfg) = Inl err \<Longrightarrow> guild_pairs E (gcfg # gs) = guild_pairs E gs"
  "GuildMembers E (GuildID gcfg) = Inr ms \<Longrightarrow>
     guild_pairs E (gcfg # gs) = map (Pair (GuildID gcfg)) (valid_users ms) @ guild_pairs E gs"
  by (simp_all add: guild_pairs_def)

lemma refresh_guilds_ticks:
  "ticks (refresh_guilds E gs w) = ticks w + length (guild_pairs E gs)"
  by (induction gs arbitrary: w)
     (auto simp: refresh_members_eq emit_def Let_def split: sum.splits)

lemma refresh_guilds_upserts:
  "upserts (trace (refresh_guilds E gs w)) =
     upserts (trace w) @ stamped E (ticks w) (guild_pairs E gs)"
  by (induction gs arbitrary: w)
     (auto simp: refresh_members_eq emit_def Let_def stamped_append split: sum.splits)

lemma refresh_guilds_fetches:
  "fetches (trace (refresh_guilds E gs w)) = fetches (trace w) @ map GuildID gs"
  by (induction gs arbitrary: w)
     (auto simp: refresh_members_eq emit_def Let_def split: sum.splits)

lemma refresh_guilds_shift:
  "refresh_guilds E gs (w\<lparr>trace := pre @ trace w\<rparr>) =
     (refresh_guilds E gs w)\<lparr>trace := pre @ trace (refresh_guilds E gs w)\<rparr>"
proof (induction gs arbitrary: w)
  case Nil
  show ?case by simp
next
  case (Cons g gs)
  show ?case
  proof (cases "GuildMembers E (GuildID g)")
    case (Inl err)
    let ?w1 = "emit (LogError (''Failed to list members for silent refresh for guild ''
                     @ GuildID g @ '': '' @ err)) (emit (GuildMembersCall (GuildID g)) w)"
    have "refresh_guilds E (g # gs) (w\<lparr>trace := pre @ trace w\<rparr>) =
          refresh_guilds E gs (?w1\<lparr>trace := pre @ trace ?w1\<rparr>)"
      using Inl by (simp add: emit_def)
    also have "\<dots> = (refresh_guilds E gs ?w1)\<lparr>trace := pre @ trace (refresh_guilds E gs ?w1)\<rparr>"
      by (rule Cons.IH)
    finally show ?thesis using Inl by simp
  next
    case (Inr ms)
    let ?w1 = "refresh_members E (GuildID g) ms (emit (GuildMembersCall (GuildID g)) w)"
    have "refresh_guilds E (g # gs) (w\<lparr>trace := pre @ trace w\<rparr>) =
          refresh_guilds E gs (?w1\<lparr>trace := pre @ trace ?w1\<rparr>)"
      using Inr by (simp add: emit_def refresh_members_eq)
    also have "\<dots> = (refresh_guilds E gs ?w1)\<lparr>trace := pre @ trace (refresh_guilds E gs ?w1)\<rparr>"
      by (rule Cons.IH)
    finally show ?thesis using Inr by simp
  qed
qed

lemma world_eta [simp]: "\<lparr>ticks = ticks w, trace = trace w\<rparr> = (w::world)"
  by (cases w) simp

lemma refresh_guilds_shift':
  "refresh_guilds E gs (w\<lparr>trace := pre @ es\<rparr>) =
     (refresh_guilds E gs (w\<lparr>trace := es\<rparr>))
       \<lparr>trace := pre @ trace (refresh_guilds E gs (w\<lparr>trace := es\<rparr>))\<rparr>"
  using refresh_guilds_shift [where E = E and gs = gs and w = "w\<lparr>trace := es\<rparr>" and pre = pre] by simp

lemma reconcile_shift:
  "reconcile E (w\<lparr>trace := pre @ trace w\<rparr>) =
     (reconcile E w)\<lparr>trace := pre @ trace (reconcile E w)\<rparr>"
  by (auto simp: refresh_guilds_shift' [where pre = pre] reconcile_def refresh_pass_def downtime_detected_def Now_def emit_def Let_def
           split: prod.splits option.splits)

lemma reconcile_appends:
  "trace (reconcile E w) = trace w @ reconcile_events E (ticks w)"
proof -
  have "reconcile E (\<lparr>ticks = ticks w, trace = []\<rparr>\<lparr>trace := trace w @ trace \<lparr>ticks = ticks w, trace = []\<rparr>\<rparr>) =
        (reconcile E \<lparr>ticks = ticks w, trace = []\<rparr>)\<lparr>trace := trace w @ trace (reconcile E \<lparr>ticks = ticks w, trace = []\<rparr>)\<rparr>"
    by (rule reconcile_shift)
  then show ?thesis by (simp add: reconcile_events_def)
qed

lemma Sub_gt_iff: "30 * Minute < Sub t u \<longleftrightarrow> 30 * Minute < t - u"
  by (simp add: Sub_def Let_def maxDuration_def minDuration_def Minute_def Second_def)

lemma refresh_pass_ticks:
  "ticks (refresh_pass E w) = ticks w + length (guild_pairs E (configured E))"
  by (simp add: refresh_pass_def configured_def emit_def Let_def refresh_guilds_ticks split: option.splits)

lemma refresh_guilds_trace:
  "trace (refresh_guilds E gs w) =
     trace w @ trace (refresh_guilds E gs \<lparr>ticks = ticks w, trace = []\<rparr>)"
  using refresh_guilds_shift [where E = E and gs = gs and pre = "trace w"
      and w = "\<lparr>ticks = ticks w, trace = []\<rparr>"]
  by simp

lemma refresh_pass_appends:
  "trace (refresh_pass E w) = trace w @ pass_events E (ticks w)"
proof (cases "Config E")
  case None
  then show ?thesis by (simp add: refresh_pass_def pass_events_def emit_def Let_def)
next
  case (Some gs)
  let ?m = "LogInfo ''Detected downtime > 30m; performing silent avatar refresh before enabling notifications''"
  let ?T = "trace (refresh_guilds E gs \<lparr>ticks = ticks w, trace = []\<rparr>)"
  have a: "trace (refresh_guilds E gs (emit ?m w)) = trace w @ [?m] @ ?T"
    using refresh_guilds_trace [of E gs "emit ?m w"] by (simp add: emit_def)
  have b: "trace (refresh_guilds E gs (emit ?m \<lparr>ticks = ticks w, trace = []\<rparr>)) = [?m] @ ?T"
    using refresh_guilds_trace [of E gs "emit ?m \<lparr>ticks = ticks w, trace = []\<rparr>"]
    by (simp add: emit_def)
  have "trace (refresh_pass E w) =
          trace (refresh_guilds E gs (emit ?m w)) @ [LogInfo ''Silent avatar refresh completed'']"
    using Some by (simp add: refresh_pass_def Let_def emit_def)
  moreover have "pass_events E (ticks w) =
          trace (refresh_guilds E gs (emit ?m \<lparr>ticks = ticks w, trace = []\<rparr>))
            @ [LogInfo ''Silent avatar refresh completed'']"
    using Some by (simp add: pass_events_def refresh_pass_def Let_def emit_def)
  ultimately show ?thesis using a b by simp
qed

lemma pass_events_fetches: "fetches (pass_events E k) = map GuildID (configured E)"
  by (simp add: pass_events_def refresh_pass_def configured_def emit_def Let_def refresh_guilds_fetches
           split: option.splits)

lemma pass_events_upserts:
  "upserts (pass_events E k) = stamped E k (guild_pairs E (configured E))"
  by (simp add: pass_events_def refresh_pass_def configured_def emit_def Let_def refresh_guilds_upserts
           split: option.splits)

lemma reconcile_events_error:
  assumes "GetHeartbeat E = (lastHB, ok, Some e)"
  shows "reconcile_events E k =
           [GetHeartbeatCall,
            LogError (''Failed to read last heartbeat; skipping downtime check: '' @ e),
            SetHeartbeatCall (clock E k)]"
  using assms by (simp add: reconcile_events_def reconcile_def emit_def Now_def Let_def)

lemma reconcile_events_fresh:
  assumes "GetHeartbeat E = (lastHB, True, None)" and "clock E k - lastHB \<le> 30 * Minute"
  shows "reconcile_events E k =
           [GetHeartbeatCall,
            LogInfo ''No significant downtime detected; skipping silent avatar refresh'',
            SetHeartbeatCall (clock E (Suc k))]"
  using assms
  by (simp add: reconcile_events_def reconcile_def downtime_detected_def emit_def Now_def Sub_gt_iff Let_def)

lemma reconcile_events_pass:
  assumes "GetHeartbeat E = (lastHB, ok, None)" and "\<not> ok \<or> 30 * Minute < clock E k - lastHB"
  shows "reconcile_events E k =
           GetHeartbeatCall # pass_events E (if ok then Suc k else k) @
           [SetHeartbeatCall (clock E ((if ok then Suc k else k) + length (guild_pairs E (configured E))))]"
  using assms
  by (auto simp: reconcile_events_def reconcile_def downtime_detected_def emit_def Now_def
        Sub_gt_iff refresh_pass_appends refresh_pass_ticks Let_def)

lemma stamped_pass_effect: "e \<in> set (stamped E k ps) \<Longrightarrow> pass_effect e"
  by (auto simp: stamped_def)

lemma refresh_guilds_pass_effect:
  "list_all pass_effect (trace w) \<Longrightarrow> list_all pass_effect (trace (refresh_guilds E gs w))"
proof (induction gs arbitrary: w)
  case Nil
  then show ?case by simp
next
  case (Cons g gs)
  show ?case
  proof (cases "GuildMembers E (GuildID g)")
    case (Inl err)
    have "list_all pass_effect (trace (emit (LogError (''Failed to list members for silent refresh for guild ''
                     @ GuildID g @ '': '' @ err)) (emit (GuildMembersCall (GuildID g)) w)))"
      using Cons.prems by (simp add: emit_def)
    from Cons.IH [OF this] show ?thesis using Inl by (simp add: Let_def)
  next
    case (Inr ms)
    have "list_all pass_effect
            (trace (refresh_members E (GuildID g) ms (emit (GuildMembersCall (GuildID g)) w)))"
      using Cons.prems
      by (auto simp: refresh_members_eq emit_def list_all_iff stamped_pass_effect)
    from Cons.IH [OF this] show ?thesis using Inr by (simp add: Let_def)
  qed
qed

lemma pass_events_pass_effect: "list_all pass_effect (pass_events E k)"
  using refresh_guilds_pass_effect [of "emit (LogInfo m) \<lparr>ticks = k, trace = []\<rparr>" E for m]
  by (auto simp: pass_events_def refresh_pass_def emit_def Let_def split: option.splits)

lemma stamped_nonempty: "UpsertAvatar g u a t \<in> set (stamped E k ps) \<Longrightarrow> a \<noteq> []"
  by (auto simp: stamped_def avatarHash_def split: if_splits)

lemma in_upserts: "UpsertAvatar g u a t \<in> set tr \<Longrightarrow> UpsertAvatar g u a t \<in> set (upserts tr)"
  by (simp add: upserts_def)

lemma reconcile_events_upserts:
  "\<exists>k' ps. upserts (reconcile_events E k) = stamped E k' ps"
proof (cases "GetHeartbeat E")
  case (fields lastHB ok err)
  show ?thesis
  proof (cases err)
    case (Some e)
    then have "upserts (reconcile_events E k) = stamped E k []"
      using fields by (simp add: reconcile_events_error)
    then show ?thesis by blast
  next
    case None
    show ?thesis
    proof (cases "\<not> ok \<or> 30 * Minute < clock E k - lastHB")
      case True
      then show ?thesis using fields None
        by (auto simp: reconcile_events_pass pass_events_upserts simp del: stamped_Cons)
    next
      case False
      then have "upserts (reconcile_events E k) = stamped E k []"
        using fields None by (simp add: reconcile_events_fresh)
      then show ?thesis by blast
    qed
  qed
qed

lemma refresh_guilds_append:
  "refresh_guilds E (xs @ ys) w = refresh_guilds E ys (refresh_guilds E xs w)"
  by (induction xs arbitrary: w) (auto simp: Let_def split: sum.splits)

lemma guild_pairs_append: "guild_pairs E (xs @ ys) = guild_pairs E xs @ guild_pairs E ys"
  by (simp add: guild_pairs_def)

section \<open>The service phase and the shutdown in closed form\<close>

lemma shutdown_appends:
  "shutdown E w = (status_of (shutdown E), w\<lparr>trace := trace w @ events_of (shutdown E)\<rparr>)"
  by (simp add: events_of_def status_of_def shutdown_def emit_def emits_def w0_def Let_def
           split: manager_call.splits option.splits)

lemma shutdown_events:
  "events_of (shutdown E) =
     [LogInfo ''Shutting down services...'', WithTimeout (30 * Second), StopAllCall] @
     (case StopAll E (registered E) of
        Blocked hooks \<Rightarrow> map StopHook hooks
      | Done hooks err \<Rightarrow>
          map StopHook hooks @ stop_log err @ (if storeNil E then [] else [StoreClose])
            @ [ShutdownCancel])"
  by (simp add: events_of_def shutdown_def stop_log_def emit_def emits_def w0_def Let_def
           split: manager_call.splits option.splits)

lemma wait_and_stop_appends:
  "wait_and_stop E w =
     (status_of (wait_and_stop E), w\<lparr>trace := trace w @ events_of (wait_and_stop E)\<rparr>)"
  by (simp add: events_of_def [of "wait_and_stop E"] status_of_def [of "wait_and_stop E"]
        wait_and_stop_def shutdown_appends emit_def w0_def Let_def)

lemma wait_and_stop_events:
  "events_of (wait_and_stop E) =
     [LogInfo ''Slash commands sync completed'', LogInfo ''Bot initialized successfully!'',
      LogInfo ''Bot running. Monitoring all configured guilds. Press Ctrl+C to stop...'',
      WaitForInterrupt] @
     (if interrupt E then LogInfo ''Stopping bot...'' # events_of (shutdown E) else [])"
  by (simp add: events_of_def [of "wait_and_stop E"]
        wait_and_stop_def shutdown_appends emit_def w0_def Let_def)

lemma setup_commands_appends:
  "setup_commands E w =
     (status_of (setup_commands E), w\<lparr>trace := trace w @ events_of (setup_commands E)\<rparr>)"
  by (simp add: events_of_def [of "setup_commands E"] status_of_def [of "setup_commands E"]
        setup_commands_def wait_and_stop_appends emit_def w0_def Let_def split: option.splits)

lemma setup_commands_events:
  "events_of (setup_commands E) =
     [NewCommandHandler, SetupCommands] @
     (case SetupCommandsErr E of
        Some err \<Rightarrow> [LogError (''Error configuring slash commands: '' @ err),
                     LogError ''Error configuring slash commands'']
      | None \<Rightarrow> RegisterAdminCommands # events_of (wait_and_stop E))"
  by (simp add: events_of_def [of "setup_commands E"]
        setup_commands_def wait_and_stop_appends emit_def w0_def Let_def split: option.splits)

lemma start_all_appends:
  "start_all E w =
     (status_of (start_all E), w\<lparr>trace := trace w @ events_of (start_all E)\<rparr>)"
  by (simp add: events_of_def [of "start_all E"] status_of_def [of "start_all E"]
        start_all_def setup_commands_appends emit_def emits_def w0_def Let_def
      split: option.splits manager_call.splits)

lemma start_all_events:
  "events_of (start_all E) =
     [LogInfo ''Starting all services...'', StartAllCall] @
     (case StartAll E (registered E) of
        Blocked hooks \<Rightarrow> map StartHook hooks
      | Done hooks (Some err) \<Rightarrow>
          map StartHook hooks @ [LogError (''Failed to start services: '' @ err),
                                 LogError ''Failed to start services'']
      | Done hooks None \<Rightarrow> map StartHook hooks @ events_of (setup_commands E))"
  by (simp add: events_of_def [of "start_all E"]
        start_all_def setup_commands_appends emit_def emits_def w0_def Let_def
      split: option.splits manager_call.splits)

lemma register_services_appends:
  "register_services E w =
     (status_of (register_services E), w\<lparr>trace := trace w @ events_of (register_services E)\<rparr>)"
  by (simp add: events_of_def [of "register_services E"] status_of_def [of "register_services E"]
        register_services_def start_all_appends emit_def w0_def Let_def split: option.splits)

lemma register_services_events:
  "events_of (register_services E) =
     RegisterCall ''monitoring'' #
     (case Register E [] (monitoringWrapper E) of
        Some err \<Rightarrow> [LogError (''Failed to register monitoring service: '' @ err),
                     LogError ''Failed to register monitoring service'']
      | None \<Rightarrow>
          RegisterCall ''automod'' #
          (case Register E [monitoringWrapper E] (automodWrapper E) of
             Some err \<Rightarrow> [LogError (''Failed to register automod service: '' @ err),
                          LogError ''Failed to register automod service'']
           | None \<Rightarrow> events_of (start_all E)))"
  by (simp add: events_of_def [of "register_services E"]
        register_services_def start_all_appends emit_def w0_def Let_def split: option.splits)

lemma services_appends:
  "services E w = (status_of (services E), w\<lparr>trace := trace w @ events_of (services E)\<rparr>)"
  by (simp add: events_of_def [of "services E"] status_of_def [of "services E"]
        services_def register_services_appends emit_def w0_def Let_def split: option.splits)

lemma services_events:
  "events_of (services E) =
     [NewServiceManager, LogInfo ''Creating service wrappers...'', NewMonitoringService] @
     (case NewMonitoringServiceErr E of
        Some err \<Rightarrow> [LogError (''Failed to create monitoring service: '' @ err),
                     LogError ''Failed to create monitoring service'']
      | None \<Rightarrow> [NewAutomodService, NewRouter, NewNotificationAdapters, SetAdapters]
                 @ events_of (register_services E))"
  by (simp add: events_of_def [of "services E"]
        services_def register_services_appends emit_def w0_def Let_def split: option.splits)

lemma no_stop_phase_closes: "\<not> list_ex stop_phase tr \<Longrightarrow> closes_after_stop E tr"
  by (auto simp: closes_after_stop_def list_ex_iff)

lemma stop_log_no_close [simp]: "StoreClose \<notin> set (stop_log err)"
  by (simp add: stop_log_def split: option.splits)

lemma shutdown_shape:
  assumes "\<not> list_ex stop_phase pre"
  shows "closes_after_stop E (pre @ events_of (shutdown E))"
proof (cases "StopAll E (registered E)")
  case (Blocked hooks)
  then have "StoreClose \<notin> set (pre @ events_of (shutdown E))"
    using assms by (auto simp: shutdown_events list_ex_iff)
  then show ?thesis by (simp add: closes_after_stop_def)
next
  case (Done hooks err)
  show ?thesis
  proof (cases "storeNil E")
    case True
    then have "StoreClose \<notin> set (pre @ events_of (shutdown E))"
      using assms Done by (auto simp: shutdown_events list_ex_iff)
    then show ?thesis by (simp add: closes_after_stop_def)
  next
    case False
    let ?zs = "pre @ [LogInfo ''Shutting down services...'', WithTimeout (30 * Second)]"
    have "pre @ events_of (shutdown E) =
            ?zs @ StopAllCall # map StopHook hooks @ stop_log err @ [StoreClose, ShutdownCancel]"
      using Done False by (simp add: shutdown_events)
    moreover have "\<not> list_ex stop_phase ?zs"
      using assms by simp
    ultimately show ?thesis
      unfolding closes_after_stop_def using Done by blast
  qed
qed

lemma wait_and_stop_shape:
  assumes "\<not> list_ex stop_phase pre"
  shows "closes_after_stop E (pre @ events_of (wait_and_stop E))"
proof (cases "interrupt E")
  case True
  let ?own = "[LogInfo ''Slash commands sync completed'', LogInfo ''Bot initialized successfully!'',
      LogInfo ''Bot running. Monitoring all configured guilds. Press Ctrl+C to stop...'',
      WaitForInterrupt, LogInfo ''Stopping bot...'']"
  have "\<not> list_ex stop_phase (pre @ ?own)" using assms by simp
  from shutdown_shape [OF this, of E] show ?thesis
    using True by (simp add: wait_and_stop_events)
next
  case False
  then show ?thesis
    using assms by (intro no_stop_phase_closes) (simp add: wait_and_stop_events)
qed

lemma setup_commands_shape:
  assumes "\<not> list_ex stop_phase pre"
  shows "closes_after_stop E (pre @ events_of (setup_commands E))"
proof (cases "SetupCommandsErr E")
  case None
  have "\<not> list_ex stop_phase (pre @ [NewCommandHandler, SetupCommands, RegisterAdminCommands])"
    using assms by simp
  from wait_and_stop_shape [OF this, of E] show ?thesis
    using None by (simp add: setup_commands_events)
next
  case (Some err)
  then show ?thesis
    using assms by (intro no_stop_phase_closes) (simp add: setup_commands_events)
qed

lemma start_hooks_no_stop [simp]: "\<not> list_ex stop_phase (map StartHook hooks)"
  by (induction hooks) simp_all

lemma start_all_shape:
  assumes "\<not> list_ex stop_phase pre"
  shows "closes_after_stop E (pre @ events_of (start_all E))"
proof (cases "StartAll E (registered E)")
  case (Blocked hooks)
  then show ?thesis
    using assms by (intro no_stop_phase_closes) (simp add: start_all_events)
next
  case (Done hooks err)
  show ?thesis
  proof (cases err)
    case (Some e)
    then show ?thesis
      using assms Done by (intro no_stop_phase_closes) (simp add: start_all_events)
  next
    case None
    have "\<not> list_ex stop_phase
            (pre @ [LogInfo ''Starting all services...'', StartAllCall] @ map StartHook hooks)"
      using assms by simp
    from setup_commands_shape [OF this, of E] show ?thesis
      using None Done by (simp add: start_all_events)
  qed
qed

lemma register_services_shape:
  assumes "\<not> list_ex stop_phase pre"
  shows "closes_after_stop E (pre @ events_of (register_services E))"
proof (cases "Register E [] (monitoringWrapper E)")
  case (Some err)
  then show ?thesis
    using assms by (intro no_stop_phase_closes) (simp add: register_services_events)
next
  case None
  note first = None
  show ?thesis
  proof (cases "Register E [monitoringWrapper E] (automodWrapper E)")
    case (Some err)
    then show ?thesis
      using assms first by (intro no_stop_phase_closes) (simp add: register_services_events)
  next
    case None
    have "\<not> list_ex stop_phase (pre @ [RegisterCall ''monitoring'', RegisterCall ''automod''])"
      using assms by simp
    from start_all_shape [OF this, of E] show ?thesis
      using None first by (simp add: register_services_events)
  qed
qed

lemma services_shape:
  assumes "\<not> list_ex stop_phase pre"
  shows "closes_after_stop E (pre @ events_of (services E))"
proof (cases "NewMonitoringServiceErr E")
  case (Some err)
  then show ?thesis
    using assms by (intro no_stop_phase_closes) (simp add: services_events)
next
  case None
  have "\<not> list_ex stop_phase
          (pre @ [NewServiceManager, LogInfo ''Creating service wrappers...'', NewMonitoringService,
                  NewAutomodService, NewRouter, NewNotificationAdapters, SetAdapters])"
    using assms by simp
  from register_services_shape [OF this, of E] show ?thesis
    using None by (simp add: services_events)
qed

lemma reconcile_events_split:
  "\<exists>pre t. reconcile_events E k = pre @ [SetHeartbeatCall t]
      \<and> list_all (\<lambda>e. e = GetHeartbeatCall \<or> pass_effect e) pre"
proof (cases "GetHeartbeat E")
  case (fields lastHB ok err)
  show ?thesis
  proof (cases err)
    case (Some e)
    then show ?thesis using fields by (simp add: reconcile_events_error)
  next
    case None
    show ?thesis
    proof (cases "\<not> ok \<or> 30 * Minute < clock E k - lastHB")
      case True
      have "list_all (\<lambda>e. e = GetHeartbeatCall \<or> pass_effect e)
              (GetHeartbeatCall # pass_events E (if ok then Suc k else k))"
        using pass_events_pass_effect [of E "if ok then Suc k else k"]
        by (auto simp: list_all_iff)
      then show ?thesis
        using reconcile_events_pass [of E lastHB ok k] fields None True by force
    next
      case False
      then show ?thesis using fields None by (simp add: reconcile_events_fresh)
    qed
  qed
qed

lemma reconcile_events_no_stop: "\<not> list_ex stop_phase (reconcile_events E k)"
proof -
  obtain pre t where "reconcile_events E k = pre @ [SetHeartbeatCall t]"
    and "list_all (\<lambda>e. e = GetHeartbeatCall \<or> pass_effect e) pre"
    using reconcile_events_split by blast
  moreover have "(e = GetHeartbeatCall \<or> pass_effect e) \<Longrightarrow> \<not> stop_phase e" for e
    by (cases e) auto
  ultimately show ?thesis by (auto simp: list_ex_iff list_all_iff)
qed

lemma boot_trace:
  "trace (snd (boot E w0)) =
     (if storeNil E then [] else reconcile_events E 0) @ events_of (services E)"
  using reconcile_appends [of E w0]
  by (simp add: boot_def services_appends w0_def)

lemma boot_status: "fst (boot E w0) = status_of (services E)"
  by (simp add: boot_def services_appends)

lemma boot_shape: "closes_after_stop E (trace (snd (boot E w0)))"
  unfolding boot_trace
  by (rule services_shape) (simp add: reconcile_events_no_stop)

lemma first_occurrence:
  "x \<notin> set A \<Longrightarrow> x \<noteq> y \<Longrightarrow> xs @ x # ys = A @ [x, y] \<Longrightarrow> xs = A \<and> ys = [y]"
proof (induction A arbitrary: xs)
  case Nil
  then show ?case by (cases xs) (auto simp: append_eq_Cons_conv)
next
  case (Cons a A)
  then show ?case by (cases xs) auto
qed

lemma services_no_reconcile: "\<not> list_ex reconcile_only (events_of (services E))"
  by (auto simp: services_events register_services_events start_all_events
        setup_commands_events wait_and_stop_events shutdown_events stop_log_def list_ex_iff
      split: option.splits manager_call.splits)

lemma refresh_members_SetHeartbeat:
  "refresh_members (E\<lparr>SetHeartbeat := r\<rparr>) gid ms w = refresh_members E gid ms w"
  by (simp add: refresh_members_eq stamped_def)

lemma refresh_guilds_SetHeartbeat:
  "refresh_guilds (E\<lparr>SetHeartbeat := r\<rparr>) gs w = refresh_guilds E gs w"
  by (induction gs arbitrary: w) (simp_all add: refresh_members_SetHeartbeat Let_def split: sum.splits)

lemma reconcile_SetHeartbeat: "reconcile (E\<lparr>SetHeartbeat := r\<rparr>) w = reconcile E w"
  by (simp add: reconcile_def refresh_pass_def downtime_detected_def Now_def Let_def
        refresh_guilds_SetHeartbeat split: option.splits prod.splits)

lemma registered_SetHeartbeat: "registered (E\<lparr>SetHeartbeat := r\<rparr>) = registered E"
  by (simp add: registered_def monitoringWrapper_def automodWrapper_def)

lemma shutdown_SetHeartbeat: "shutdown (E\<lparr>SetHeartbeat := r\<rparr>) w = shutdown E w"
  by (simp add: shutdown_def registered_SetHeartbeat Let_def split: manager_call.splits option.splits)

lemma wait_and_stop_SetHeartbeat: "wait_and_stop (E\<lparr>SetHeartbeat := r\<rparr>) w = wait_and_stop E w"
  by (simp add: wait_and_stop_def shutdown_SetHeartbeat Let_def)

lemma setup_commands_SetHeartbeat: "setup_commands (E\<lparr>SetHeartbeat := r\<rparr>) w = setup_commands E w"
  by (simp add: setup_commands_def wait_and_stop_SetHeartbeat Let_def split: option.splits)

lemma start_all_SetHeartbeat: "start_all (E\<lparr>SetHeartbeat := r\<rparr>) w = start_all E w"
  by (simp add: start_all_def registered_SetHeartbeat setup_commands_SetHeartbeat Let_def
      split: manager_call.splits option.splits)

lemma register_services_SetHeartbeat:
  "register_services (E\<lparr>SetHeartbeat := r\<rparr>) w = register_services E w"
  by (simp add: register_services_def start_all_SetHeartbeat monitoringWrapper_def
        automodWrapper_def Let_def split: option.splits)

lemma services_SetHeartbeat: "services (E\<lparr>SetHeartbeat := r\<rparr>) w = services E w"
  by (simp add: services_def register_services_SetHeartbeat Let_def split: option.splits)

lemma boot_SetHeartbeat: "boot (E\<lparr>SetHeartbeat := r\<rparr>) w = boot E w"
  by (simp add: boot_def services_SetHeartbeat reconcile_SetHeartbeat)

lemma demo_fresh_trace:
  "trace (snd (boot demo_fresh w0)) =
     [GetHeartbeatCall,
      LogInfo ''No significant downtime detected; skipping silent avatar refresh'',
      SetHeartbeatCall 3600000000001,
      NewServiceManager, LogInfo ''Creating service wrappers...'', NewMonitoringService,
      NewAutomodService, NewRouter, NewNotificationAdapters, SetAdapters,
      RegisterCall ''monitoring'', RegisterCall ''automod'',
      LogInfo ''Starting all services...'', StartAllCall,
      StartHook ''monitoring'', StartHook ''automod'',
      NewCommandHandler, SetupCommands, RegisterAdminCommands,
      LogInfo ''Slash commands sync completed'', LogInfo ''Bot initialized successfully!'',
      LogInfo ''Bot running. Monitoring all configured guilds. Press Ctrl+C to stop...'',
      WaitForInterrupt, LogInfo ''Stopping bot...'',
      LogInfo ''Shutting down services...'', WithTimeout 30000000000, StopAllCall,
      StopHook ''automod'', StopHook ''monitoring''] @ [StoreClose, ShutdownCancel]"
proof -
  have "GetHeartbeat demo_fresh = (3000 * Second, True, None)"
    and "clock demo_fresh 0 - 3000 * Second \<le> 30 * Minute"
    by (simp_all add: demo_fresh_def demo_def Minute_def Second_def)
  then have "reconcile_events demo_fresh 0 =
     [GetHeartbeatCall,
      LogInfo ''No significant downtime detected; skipping silent avatar refresh'',
      SetHeartbeatCall 3600000000001]"
    by (simp add: reconcile_events_fresh) (simp add: demo_fresh_def demo_def Second_def)
  then show ?thesis
    by (simp add: boot_trace services_events register_services_events start_all_events
          setup_commands_events wait_and_stop_events shutdown_events stop_log_def
          registered_def monitoringWrapper_def automodWrapper_def
          demo_fresh_def demo_def Second_def)
qed

lemmas stage_defs = boot_def services_def register_services_def start_all_def
  setup_commands_def wait_and_stop_def shutdown_def registered_def monitoringWrapper_def
  automodWrapper_def emit_def emits_def

lemma stamped_index:
  "UpsertAvatar g u a t \<in> set (stamped E k ps) \<Longrightarrow> \<exists>i. k \<le> i \<and> i < k + length ps \<and> t = clock E i"
  by (auto simp: stamped_def in_set_enumerate_eq)

lemma reconcile_shape:
  "\<exists>pre n. reconcile E w0 = \<lparr>ticks = Suc n, trace = pre @ [SetHeartbeatCall (clock E n)]\<rparr>
      \<and> (\<forall>g u a t. UpsertAvatar g u a t \<in> set pre \<longrightarrow> (\<exists>i<n. t = clock E i))
      \<and> list_all (\<lambda>e. e = GetHeartbeatCall \<or> pass_effect e) pre"
proof -
  have world: "reconcile E w0 = \<lparr>ticks = ticks (reconcile E w0), trace = reconcile_events E 0\<rparr>"
    by (simp add: reconcile_events_def w0_def)
  obtain lastHB ok err where hb: "GetHeartbeat E = (lastHB, ok, err)"
    by (cases "GetHeartbeat E") auto
  show ?thesis
  proof (cases err)
    case (Some e)
    let ?pre = "[GetHeartbeatCall,
        LogError (''Failed to read last heartbeat; skipping downtime check: '' @ e)]"
    have "reconcile_events E 0 = ?pre @ [SetHeartbeatCall (clock E 0)]"
      using hb Some by (simp add: reconcile_events_error)
    moreover have "ticks (reconcile E w0) = Suc 0"
      using hb Some by (simp add: reconcile_def Now_def emit_def Let_def w0_def)
    ultimately have "reconcile E w0 = \<lparr>ticks = Suc 0, trace = ?pre @ [SetHeartbeatCall (clock E 0)]\<rparr>"
      using world by simp
    moreover have "\<forall>g u a t. UpsertAvatar g u a t \<in> set ?pre \<longrightarrow> (\<exists>i<0. t = clock E i)"
      by simp
    moreover have "list_all (\<lambda>e. e = GetHeartbeatCall \<or> pass_effect e) ?pre"
      by simp
    ultimately show ?thesis by blast
  next
    case None
    show ?thesis
    proof (cases "\<not> ok \<or> 30 * Minute < clock E 0 - lastHB")
      case False
      let ?pre = "[GetHeartbeatCall,
          LogInfo ''No significant downtime detected; skipping silent avatar refresh'']"
      have "reconcile_events E 0 = ?pre @ [SetHeartbeatCall (clock E (Suc 0))]"
        using hb None False by (simp add: reconcile_events_fresh)
      moreover have "ticks (reconcile E w0) = Suc (Suc 0)"
        using hb None False
        by (simp add: reconcile_def downtime_detected_def Now_def emit_def Let_def w0_def
              Sub_gt_iff)
      ultimately have "reconcile E w0 =
          \<lparr>ticks = Suc (Suc 0), trace = ?pre @ [SetHeartbeatCall (clock E (Suc 0))]\<rparr>"
        using world by simp
      moreover have "\<forall>g u a t. UpsertAvatar g u a t \<in> set ?pre \<longrightarrow> (\<exists>i<Suc 0. t = clock E i)"
        by simp
      moreover have "list_all (\<lambda>e. e = GetHeartbeatCall \<or> pass_effect e) ?pre"
        by simp
      ultimately show ?thesis by blast
    next
      case True
      let ?k = "if ok then Suc 0 else 0"
      let ?ps = "guild_pairs E (configured E)"
      let ?pre = "GetHeartbeatCall # pass_events E ?k"
      let ?n = "?k + length ?ps"
      have "reconcile_events E 0 = ?pre @ [SetHeartbeatCall (clock E ?n)]"
        using reconcile_events_pass [of E lastHB ok 0] hb None True by simp
      moreover have "ticks (reconcile E w0) = Suc ?n"
        using hb None True
        by (auto simp: reconcile_def downtime_detected_def Now_def emit_def Let_def w0_def
              Sub_gt_iff refresh_pass_ticks)
      ultimately have w: "reconcile E w0 =
          \<lparr>ticks = Suc ?n, trace = ?pre @ [SetHeartbeatCall (clock E ?n)]\<rparr>"
        using world by simp
      have stamps: "\<forall>g u a t. UpsertAvatar g u a t \<in> set ?pre \<longrightarrow> (\<exists>i<?n. t = clock E i)"
      proof (intro allI impI)
        fix g u a t assume "UpsertAvatar g u a t \<in> set ?pre"
        then have "UpsertAvatar g u a t \<in> set (upserts (pass_events E ?k))"
          using in_upserts [of g u a t "pass_events E ?k"] by auto
        then have "UpsertAvatar g u a t \<in> set (stamped E ?k ?ps)"
          by (simp only: pass_events_upserts)
        then obtain i where "i < ?k + length ?ps" and "t = clock E i"
          using stamped_index by blast
        then show "\<exists>i<?n. t = clock E i" by blast
      qed
      have "list_all (\<lambda>e. e = GetHeartbeatCall \<or> pass_effect e) ?pre"
        using pass_events_pass_effect [of E ?k] by (auto simp: list_all_iff)
      then show ?thesis using w stamps by blast
    qed
  qed
qed

lemma shutdown_status:
  "status_of (shutdown E) =
     (case StopAll E (registered E) of Blocked hooks \<Rightarrow> Stuck | Done hooks err \<Rightarrow> Return)"
  by (simp add: status_of_def shutdown_def Let_def split: manager_call.splits)

lemma wait_and_stop_status:
  "status_of (wait_and_stop E) = (if interrupt E then status_of (shutdown E) else Stuck)"
  by (simp add: status_of_def [of "wait_and_stop E"] wait_and_stop_def shutdown_appends Let_def)

lemma setup_commands_status:
  "status_of (setup_commands E) =
     (case SetupCommandsErr E of Some err \<Rightarrow> Exit 1 | None \<Rightarrow> status_of (wait_and_stop E))"
  by (simp add: status_of_def [of "setup_commands E"] setup_commands_def wait_and_stop_appends
        Let_def split: option.splits)

lemma start_all_status:
  "status_of (start_all E) =
     (case StartAll E (registered E) of
        Blocked hooks \<Rightarrow> Stuck
      | Done hooks (Some err) \<Rightarrow> Exit 1
      | Done hooks None \<Rightarrow> status_of (setup_commands E))"
  by (simp add: status_of_def [of "start_all E"] start_all_def setup_commands_appends
        Let_def split: manager_call.splits option.splits)

lemma register_services_status:
  "status_of (register_services E) =
     (case Register E [] (monitoringWrapper E) of
        Some err \<Rightarrow> Exit 1
      | None \<Rightarrow>
          (case Register E [monitoringWrapper E] (automodWrapper E) of
             Some err \<Rightarrow> Exit 1
           | None \<Rightarrow> status_of (start_all E)))"
  by (simp add: status_of_def [of "register_services E"] register_services_def start_all_appends
        Let_def split: option.splits)

lemma services_status:
  "status_of (services E) =
     (case NewMonitoringServiceErr E of
        Some err \<Rightarrow> Exit 1
      | None \<Rightarrow> status_of (register_services E))"
  by (simp add: status_of_def [of "services E"] services_def register_services_appends
        Let_def split: option.splits)

lemma shutdown_returns:
  assumes "status_of (shutdown E) = Return" and "\<not> list_ex stop_phase pre"
  shows "closes_on_return E (pre @ events_of (shutdown E))"
proof (cases "StopAll E (registered E)")
  case (Blocked hooks)
  then show ?thesis using assms(1) by (simp add: shutdown_status)
next
  case (Done hooks err)
  let ?zs = "pre @ [LogInfo ''Shutting down services...'', WithTimeout (30 * Second)]"
  have "pre @ events_of (shutdown E) =
          ?zs @ StopAllCall # map StopHook hooks @ stop_log err
            @ (if storeNil E then [] else [StoreClose]) @ [ShutdownCancel]"
    using Done by (simp add: shutdown_events)
  moreover have "\<not> list_ex stop_phase ?zs"
    using assms(2) by simp
  ultimately show ?thesis
    unfolding closes_on_return_def using Done by blast
qed

lemma wait_and_stop_returns:
  assumes "status_of (wait_and_stop E) = Return" and "\<not> list_ex stop_phase pre"
  shows "closes_on_return E (pre @ events_of (wait_and_stop E))"
proof (cases "interrupt E")
  case False
  then show ?thesis using assms(1) by (simp add: wait_and_stop_status)
next
  case True
  let ?own = "[LogInfo ''Slash commands sync completed'', LogInfo ''Bot initialized successfully!'',
      LogInfo ''Bot running. Monitoring all configured guilds. Press Ctrl+C to stop...'',
      WaitForInterrupt, LogInfo ''Stopping bot...'']"
  have "status_of (shutdown E) = Return"
    using assms(1) True by (simp add: wait_and_stop_status)
  moreover have "\<not> list_ex stop_phase (pre @ ?own)"
    using assms(2) by simp
  ultimately have "closes_on_return E ((pre @ ?own) @ events_of (shutdown E))"
    by (rule shutdown_returns)
  then show ?thesis using True by (simp add: wait_and_stop_events)
qed

lemma setup_commands_returns:
  assumes "status_of (setup_commands E) = Return" and "\<not> list_ex stop_phase pre"
  shows "closes_on_return E (pre @ events_of (setup_commands E))"
proof (cases "SetupCommandsErr E")
  case (Some err)
  then show ?thesis using assms(1) by (simp add: setup_commands_status)
next
  case None
  have "status_of (wait_and_stop E) = Return"
    using assms(1) None by (simp add: setup_commands_status)
  moreover have "\<not> list_ex stop_phase
                    (pre @ [NewCommandHandler, SetupCommands, RegisterAdminCommands])"
    using assms(2) by simp
  ultimately have "closes_on_return E
      ((pre @ [NewCommandHandler, SetupCommands, RegisterAdminCommands])
         @ events_of (wait_and_stop E))"
    by (rule wait_and_stop_returns)
  then show ?thesis using None by (simp add: setup_commands_events)
qed

lemma start_all_returns:
  assumes "status_of (start_all E) = Return" and "\<not> list_ex stop_phase pre"
  shows "closes_on_return E (pre @ events_of (start_all E))"
proof (cases "StartAll E (registered E)")
  case (Blocked hooks)
  then show ?thesis using assms(1) by (simp add: start_all_status)
next
  case (Done hooks err)
  show ?thesis
  proof (cases err)
    case (Some e)
    then show ?thesis using assms(1) Done by (simp add: start_all_status)
  next
    case None
    have "status_of (setup_commands E) = Return"
      using assms(1) Done None by (simp add: start_all_status)
    moreover have "\<not> list_ex stop_phase
            (pre @ [LogInfo ''Starting all services...'', StartAllCall] @ map StartHook hooks)"
      using assms(2) by simp
    ultimately have "closes_on_return E
        ((pre @ [LogInfo ''Starting all services...'', StartAllCall] @ map StartHook hooks)
           @ events_of (setup_commands E))"
      by (rule setup_commands_returns)
    then show ?thesis using Done None by (simp add: start_all_events)
  qed
qed

lemma register_services_returns:
  assumes "status_of (register_services E) = Return" and "\<not> list_ex stop_phase pre"
  shows "closes_on_return E (pre @ events_of (register_services E))"
proof (cases "Register E [] (monitoringWrapper E)")
  case (Some err)
  then show ?thesis using assms(1) by (simp add: register_services_status)
next
  case None
  note first = None
  show ?thesis
  proof (cases "Register E [monitoringWrapper E] (automodWrapper E)")
    case (Some err)
    then show ?thesis using assms(1) first by (simp add: register_services_status)
  next
    case None
    have "status_of (start_all E) = Return"
      using assms(1) first None by (simp add: register_services_status)
    moreover have "\<not> list_ex stop_phase
                      (pre @ [RegisterCall ''monitoring'', RegisterCall ''automod''])"
      using assms(2) by simp
    ultimately have "closes_on_return E
        ((pre @ [RegisterCall ''monitoring'', RegisterCall ''automod'']) @ events_of (start_all E))"
      by (rule start_all_returns)
    then show ?thesis using first None by (simp add: register_services_events)
  qed
qed

lemma services_returns:
  assumes "status_of (services E) = Return" and "\<not> list_ex stop_phase pre"
  shows "closes_on_return E (pre @ events_of (services E))"
proof (cases "NewMonitoringServiceErr E")
  case (Some err)
  then show ?thesis using assms(1) by (simp add: services_status)
next
  case None
  let ?own = "[NewServiceManager, LogInfo ''Creating service wrappers...'', NewMonitoringService,
               NewAutomodService, NewRouter, NewNotificationAdapters, SetAdapters]"
  have "status_of (register_services E) = Return"
    using assms(1) None by (simp add: services_status)
  moreover have "\<not> list_ex stop_phase (pre @ ?own)"
    using assms(2) by simp
  ultimately have "closes_on_return E ((pre @ ?own) @ events_of (register_services E))"
    by (rule register_services_returns)
  then show ?thesis using None by (simp add: services_events)
qed

lemma boot_returns:
  assumes "fst (boot E w0) = Return"
  shows "closes_on_return E (trace (snd (boot E w0)))"
  unfolding boot_trace
  using assms by (intro services_returns) (simp_all add: boot_status reconcile_events_no_stop)

lemma shutdown_result:
  "shutdown E w =
     (case StopAll E (registered E) of
        Blocked hooks \<Rightarrow>
          (Stuck, w\<lparr>trace := trace w @
             [LogInfo ''Shutting down services...'', WithTimeout (30 * Second), StopAllCall]
             @ map StopHook hooks\<rparr>)
      | Done hooks err \<Rightarrow>
          (Return, w\<lparr>trace := trace w @
             [LogInfo ''Shutting down services...'', WithTimeout (30 * Second), StopAllCall]
             @ map StopHook hooks @ stop_log err
             @ (if storeNil E then [] else [StoreClose]) @ [ShutdownCancel]\<rparr>))"
  by (simp add: shutdown_def stop_log_def emit_def emits_def Let_def
        split: manager_call.splits option.splits)

section \<open>Properties of the start order\<close>

lemma pick_None: "pick es = None \<longleftrightarrow> es = []"
  by (cases es) (auto split: option.splits)

lemma precedes_irrefl: "\<not> precedes a a"
  by (simp add: precedes_def)

lemma precedes_asym: "precedes a b \<Longrightarrow> \<not> precedes b a"
  by (auto simp: precedes_def)

lemma precedes_chain: "precedes t x \<Longrightarrow> \<not> precedes b x \<Longrightarrow> precedes t b"
  by (auto simp: precedes_def)

lemma pick_minimal: "pick es = Some e \<Longrightarrow> t \<in> set es \<Longrightarrow> \<not> precedes t e"
proof (induction es arbitrary: e)
  case Nil
  then show ?case by simp
next
  case (Cons x es)
  show ?case
  proof (cases "pick es")
    case None
    then have "es = []" by (simp add: pick_None)
    then show ?thesis using Cons.prems by (simp add: precedes_irrefl)
  next
    case (Some b)
    note IH = Cons.IH [OF Some]
    show ?thesis
    proof (cases "precedes b x")
      case True
      then have e: "e = b" using Cons.prems(1) Some by simp
      show ?thesis
      proof (cases "t = x")
        case True
        then show ?thesis using e precedes_asym [OF \<open>precedes b x\<close>] by simp
      next
        case False
        then have "t \<in> set es" using Cons.prems(2) by simp
        then show ?thesis using e IH by simp
      qed
    next
      case False
      then have e: "e = x" using Cons.prems(1) Some by simp
      show ?thesis
      proof (cases "t = x")
        case True
        then show ?thesis using e precedes_irrefl by simp
      next
        case nx: False
        then have "t \<in> set es" using Cons.prems(2) by simp
        then have "\<not> precedes t b" by (rule IH)
        then show ?thesis using e precedes_chain [OF _ False] by blast
      qed
    qed
  qed
qed

lemma distinct_map_remove1: "distinct (map f xs) \<Longrightarrow> distinct (map f (remove1 x xs))"
proof (induction xs)
  case Nil
  then show ?case by simp
next
  case (Cons a xs)
  have "set (remove1 x xs) \<subseteq> set xs" by (rule set_remove1_subset)
  then show ?case using Cons by auto
qed

lemma precedes_total: "fst a \<noteq> fst b \<Longrightarrow> \<not> precedes b a \<Longrightarrow> precedes a b"
  by (auto simp: precedes_def)

lemma start_order_greedy:
  assumes "start_order pending started = Inr ord" and "distinct (map fst pending)"
  shows "\<exists>new. ord = started @ new \<and> distinct new \<and> set new = set pending
           \<and> (\<forall>pre e post. new = pre @ e # post \<longrightarrow> ready (started @ pre) e)
           \<and> (\<forall>pre e mid t post. new = pre @ e # mid @ t # post \<and> ready (started @ pre) t
                 \<longrightarrow> precedes e t)"
  using assms
proof (induction pending started rule: start_order.induct)
  case (1 pending started)
  show ?case
  proof (cases "pending = []")
    case True
    then show ?thesis using "1.prems" by (simp add: start_order.simps)
  next
    case False
    then obtain e where e: "pick (filter (ready started) pending) = Some e"
      using "1.prems"(1) by (auto simp: start_order.simps [of pending] split: option.splits)
    then have rest: "start_order (remove1 e pending) (started @ [e]) = Inr ord"
      using "1.prems"(1) False by (simp add: start_order.simps [of pending])
    have e_in: "e \<in> set pending" and e_ready: "ready started e"
      using pick_in [OF e] by auto
    have dist: "distinct pending"
      using "1.prems"(2) by (rule distinct_map [THEN iffD1, THEN conjunct1])
    have "distinct (map fst (remove1 e pending))"
      using "1.prems"(2) by (simp add: distinct_map_remove1)
    from "1.IH" [OF False e rest this]
    obtain new where ord: "ord = (started @ [e]) @ new" and dnew: "distinct new"
      and snew: "set new = set (remove1 e pending)"
      and topo: "\<forall>pre x post. new = pre @ x # post \<longrightarrow> ready ((started @ [e]) @ pre) x"
      and tie: "\<forall>pre x mid t post. new = pre @ x # mid @ t # post
                  \<and> ready ((started @ [e]) @ pre) t \<longrightarrow> precedes x t"
      by blast
    have first: "precedes e t" if "t \<in> set new" and "ready started t" for t
    proof -
      have "t \<in> set pending" and "t \<noteq> e"
        using that(1) snew dist by auto
      then have "fst e \<noteq> fst t"
        using e_in "1.prems"(2) by (auto simp: distinct_map inj_on_def)
      moreover have "\<not> precedes t e"
        using pick_minimal [OF e, of t] \<open>t \<in> set pending\<close> that(2) by simp
      ultimately show ?thesis by (rule precedes_total)
    qed
    have p1: "ord = started @ (e # new)"
      using ord by simp
    have p2: "distinct (e # new)"
      using dnew snew dist by simp
    have p3: "set (e # new) = set pending"
      using snew dist e_in by auto
    have p4: "ready (started @ pre) x" if "e # new = pre @ x # post" for pre x post
    proof (cases pre)
      case Nil
      then show ?thesis using that e_ready by simp
    next
      case (Cons a pre')
      then have "new = pre' @ x # post" using that by simp
      then have "ready ((started @ [e]) @ pre') x" using topo by blast
      then show ?thesis using Cons that by simp
    qed
    have p5: "precedes x t"
      if "e # new = pre @ x # mid @ t # post" and "ready (started @ pre) t"
      for pre x mid t post
    proof (cases pre)
      case Nil
      then have "x = e" and "t \<in> set new"
        using that(1) by auto
      then show ?thesis using first that(2) Nil by simp
    next
      case (Cons a pre')
      then have "new = pre' @ x # mid @ t # post" and "ready ((started @ [e]) @ pre') t"
        using that by auto
      then show ?thesis using tie by blast
    qed
    show ?thesis
    proof (intro exI [of _ "e # new"] conjI allI impI)
      show "ord = started @ e # new" by (rule p1)
      show "distinct (e # new)" by (rule p2)
      show "set (e # new) = set pending" by (rule p3)
      show "ready (started @ pre) x" if "e # new = pre @ x # post" for pre x post
        using that by (rule p4)
      show "precedes x t"
        if "e # new = pre @ x # mid @ t # post \<and> ready (started @ pre) t"
        for pre x mid t post
        using that p5 by blast
    qed
  qed
qed

lemma finite_dep_graph: "finite (dep_graph svcs)"
  by (simp add: dep_graph_def)

lemma ready_iff: "ready started e \<longleftrightarrow> set (deps (snd e)) \<subseteq> set (started_names started)"
  by (auto simp: ready_def list_all_iff)

lemma unknown_dependency_None:
  "unknown_dependency svcs = None \<longleftrightarrow>
     (\<forall>s \<in> set svcs. set (deps s) \<subseteq> set (map name svcs))"
  by (fastforce simp: unknown_dependency_def find_None_iff)

lemma some_ready:
  assumes "acyclic (dep_graph svcs)" and "pending \<noteq> []"
    and "snd ` set pending \<subseteq> set svcs"
    and "\<forall>e \<in> set pending. set (deps (snd e)) \<subseteq>
           set (started_names started) \<union> set (started_names pending)"
  shows "\<exists>e \<in> set pending. ready started e"
proof -
  have wf: "wf ((dep_graph svcs)\<inverse>)"
    using finite_dep_graph assms(1) by (rule finite_acyclic_wf_converse)
  obtain e1 where "e1 \<in> set pending"
    using assms(2) by (cases pending) auto
  then have "name (snd e1) \<in> set (started_names pending)"
    by (simp add: started_names_def)
  then have "\<exists>z \<in> set (started_names pending).
               \<forall>y. (y, z) \<in> (dep_graph svcs)\<inverse> \<longrightarrow> y \<notin> set (started_names pending)"
    using wf unfolding wf_eq_minimal by blast
  then obtain z where z: "z \<in> set (started_names pending)"
    and least: "\<And>y. (y, z) \<in> (dep_graph svcs)\<inverse> \<Longrightarrow> y \<notin> set (started_names pending)"
    by blast
  from z obtain e where e: "e \<in> set pending" and ze: "z = name (snd e)"
    by (auto simp: started_names_def)
  have "d \<in> set (started_names started)" if "d \<in> set (deps (snd e))" for d
  proof -
    have "snd e \<in> set svcs" using e assms(3) by auto
    then have "(z, d) \<in> dep_graph svcs"
      using that ze by (auto simp: dep_graph_def)
    then have "d \<notin> set (started_names pending)"
      using least by simp
    then show ?thesis using assms(4) e that by auto
  qed
  then have "ready started e" by (auto simp: ready_iff)
  then show ?thesis using e by blast
qed

lemma start_order_total:
  assumes "acyclic (dep_graph svcs)"
    and "snd ` set pending \<subseteq> set svcs"
    and "\<forall>e \<in> set pending. set (deps (snd e)) \<subseteq>
           set (started_names started) \<union> set (started_names pending)"
  shows "\<exists>ord. start_order pending started = Inr ord"
  using assms(2,3)
proof (induction pending started rule: start_order.induct)
  case (1 pending started)
  show ?case
  proof (cases "pending = []")
    case True
    then show ?thesis by (simp add: start_order.simps)
  next
    case False
    obtain r where "r \<in> set pending" and "ready started r"
      using some_ready [OF assms(1) False "1.prems"] by blast
    then have "filter (ready started) pending \<noteq> []"
      by (auto simp: filter_empty_conv)
    then obtain e where e: "pick (filter (ready started) pending) = Some e"
      using pick_None [of "filter (ready started) pending"] by (cases "pick (filter (ready started) pending)") auto
    have e_in: "e \<in> set pending"
      using pick_in [OF e] by simp
    have sub: "snd ` set (remove1 e pending) \<subseteq> set svcs"
      using "1.prems"(1) set_remove1_subset [of e pending] by blast
    have names: "set (started_names pending) \<subseteq>
                   set (started_names (started @ [e])) \<union> set (started_names (remove1 e pending))"
    proof
      fix n assume "n \<in> set (started_names pending)"
      then obtain x where x: "x \<in> set pending" and n: "n = name (snd x)"
        by (auto simp: started_names_def)
      show "n \<in> set (started_names (started @ [e])) \<union> set (started_names (remove1 e pending))"
      proof (cases "x = e")
        case True
        then show ?thesis using n by (simp add: started_names_def)
      next
        case False
        then have "x \<in> set (remove1 e pending)" using x by simp
        then show ?thesis using n by (auto simp: started_names_def)
      qed
    qed
    have deps': "\<forall>x \<in> set (remove1 e pending). set (deps (snd x)) \<subseteq>
           set (started_names (started @ [e])) \<union> set (started_names (remove1 e pending))"
    proof
      fix x assume "x \<in> set (remove1 e pending)"
      then have "x \<in> set pending"
        using set_remove1_subset [of e pending] by blast
      then have "set (deps (snd x)) \<subseteq> set (started_names started) \<union> set (started_names pending)"
        using "1.prems"(2) by blast
      moreover have "set (started_names started) \<subseteq> set (started_names (started @ [e]))"
        by (auto simp: started_names_def)
      ultimately show "set (deps (snd x)) \<subseteq>
           set (started_names (started @ [e])) \<union> set (started_names (remove1 e pending))"
        using names by blast
    qed
    from "1.IH" [OF False e sub deps']
    show ?thesis using False e by (simp add: start_order.simps [of pending])
  qed
qed

lemma registered_order:
  "start_order (enumerate 0 (registered E)) [] = Inr [(0, monitoringWrapper E), (1, automodWrapper E)]"
proof -
  let ?m = "(0::nat, monitoringWrapper E)" and ?a = "(Suc 0, automodWrapper E)"
  have rm: "ready [] ?m" and ra: "ready [] ?a" and ra': "ready [?m] ?a"
    by (simp_all add: ready_def monitoringWrapper_def automodWrapper_def)
  have "precedes ?m ?a"
    by (simp add: precedes_def monitoringWrapper_def automodWrapper_def)
  then have "pick [?m, ?a] = Some ?m"
    using precedes_asym [of ?m ?a] by simp
  then have one: "start_order [?m, ?a] [] = start_order [?a] [?m]"
    using rm ra by (simp add: start_order.simps [of "[?m, ?a]"])
  have two: "start_order [?a] [?m] = start_order [] [?m, ?a]"
    using ra' by (simp add: start_order.simps [of "[?a]"])
  have "start_order [] [?m, ?a] = Inr [?m, ?a]"
    by (simp add: start_order.simps)
  then show ?thesis
    using one two by (simp add: registered_def)
qed

lemma registered_resolve: "resolve (registered E) = Inr [monitoringWrapper E, automodWrapper E]"
proof -
  have "unknown_dependency (registered E) = None"
    by (simp add: unknown_dependency_None registered_def monitoringWrapper_def automodWrapper_def)
  then show ?thesis
    by (simp add: resolve_def registered_order)
qed

lemma run_starts_all:
  "\<forall>s \<in> set ss. start s = Returns None \<Longrightarrow> run_starts ss = Done (map name ss) None"
  by (induction ss) simp_all

lemma spec_example_order:
  "resolve spec_example
     = Inr [svc ''X'' PriorityLow [], svc ''Y'' PriorityHigh [''X''], svc ''Z'' PriorityNormal [''X'']]"
  by (simp add: resolve_def unknown_dependency_def start_order.simps ready_def
        started_names_def precedes_def svc_def spec_example_def)

lemma spec_example_graph: "dep_graph spec_example = {(''Z'', ''X''), (''Y'', ''X'')}"
  by (auto simp: dep_graph_def spec_example_def svc_def)

lemma spec_example_acyclic: "acyclic (dep_graph spec_example)"
proof (rule acyclicI_order [where f = "\<lambda>n. if n = ''X'' then 0 else (1::nat)"])
  fix a b assume "(a, b) \<in> dep_graph spec_example"
  then show "(if b = ''X'' then 0 else (1::nat)) < (if a = ''X'' then 0 else 1)"
    by (auto simp: spec_example_graph)
qed

lemma spec_example_cycle:
  "resolve [svc ''Y'' PriorityNormal [''Z''], svc ''Z'' PriorityNormal [''Y'']]
     = Inl (CyclicDependency [''Y'', ''Z''])"
  by (simp add: resolve_def unknown_dependency_def start_order.simps ready_def
        started_names_def precedes_def svc_def)

section \<open>Claims on the silent avatar refresh\<close>

text \<open>
  C1. When the heartbeat was read without error, \<^verbatim>\<open>main\<close> runs the refresh pass exactly
  when no heartbeat was found or the heartbeat is more than 30 minutes older than the
  clock's reading; otherwise it logs that the pass is skipped. The saturation of
  \<^verbatim>\<open>Time.Sub\<close> does not change the comparison. A pass fetches the members of every
  configured guild, in order, and its upserts are exactly one per guild and user of a
  fetched member, keyed by the guild's and the user's ID, with the avatar hash of lines
  129 to 132 and a reading of the clock taken for that upsert.
\<close>

theorem refresh_pass_iff_absent_or_stale:
  assumes "GetHeartbeat E = (lastHB, ok, None)"
  shows "reconcile_events E k =
           (if \<not> ok \<or> 30 * Minute < clock E k - lastHB
            then GetHeartbeatCall # pass_events E (if ok then Suc k else k) @
                 [SetHeartbeatCall (clock E ((if ok then Suc k else k)
                    + length (guild_pairs E (configured E))))]
            else [GetHeartbeatCall,
                  LogInfo ''No significant downtime detected; skipping silent avatar refresh'',
                  SetHeartbeatCall (clock E (Suc k))])
         \<and> fetches (pass_events E k') = map GuildID (configured E)
         \<and> upserts (pass_events E k') = stamped E k' (guild_pairs E (configured E))"
proof (cases "\<not> ok \<or> 30 * Minute < clock E k - lastHB")
  case True
  then show ?thesis
    using reconcile_events_pass [OF assms True]
    by (simp add: pass_events_fetches pass_events_upserts)
next
  case False
  then have "ok" and "clock E k - lastHB \<le> 30 * Minute" by auto
  then show ?thesis
    using reconcile_events_fresh [of E lastHB k] assms False
    by (simp add: pass_events_fetches pass_events_upserts)
qed

theorem refresh_pass_iff_absent_or_stale_witness:
  "GetHeartbeat demo = (0, True, None)
   \<and> fetches (reconcile_events demo 0) = [''g1'', ''g2'', ''g3'']
   \<and> upserts (reconcile_events demo 0) =
       [UpsertAvatar ''g1'' ''u1'' ''default'' 3600000000001,
        UpsertAvatar ''g1'' ''u2'' ''abc'' 3600000000002,
        UpsertAvatar ''g3'' ''u1'' ''default'' 3600000000003,
        UpsertAvatar ''g3'' ''u2'' ''abc'' 3600000000004]"
proof -
  have h: "GetHeartbeat demo = (0, True, None)"
    by (simp add: demo_def)
  have stale: "30 * Minute < clock demo 0 - 0"
    by (simp add: demo_def Minute_def Second_def)
  have guilds: "map GuildID (configured demo) = [''g1'', ''g2'', ''g3'']"
    by (simp add: configured_def demo_def)
  have pairs: "stamped demo 1 (guild_pairs demo (configured demo)) =
       [UpsertAvatar ''g1'' ''u1'' ''default'' 3600000000001,
        UpsertAvatar ''g1'' ''u2'' ''abc'' 3600000000002,
        UpsertAvatar ''g3'' ''u1'' ''default'' 3600000000003,
        UpsertAvatar ''g3'' ''u2'' ''abc'' 3600000000004]"
    by (simp add: guild_pairs_def configured_def valid_users_def avatarHash_def demo_def Second_def)
  show ?thesis
    using refresh_pass_iff_absent_or_stale [OF h, where k = 0 and k' = 1] stale guilds pairs h
    by simp
qed

text \<open>
  C4. When a heartbeat was found and it is at most 30 minutes older than the clock's
  reading (so in particular when it is younger than the threshold), the reconciliation
  makes no cache upsert and fetches no members.
\<close>

theorem fresh_heartbeat_no_upserts:
  assumes "GetHeartbeat E = (lastHB, True, None)" and "clock E k - lastHB \<le> 30 * Minute"
  shows "upserts (reconcile_events E k) = [] \<and> fetches (reconcile_events E k) = []"
  using reconcile_events_fresh [OF assms] by simp

theorem fresh_heartbeat_no_upserts_witness:
  "GetHeartbeat (demo\<lparr>GetHeartbeat := (3000 * Second, True, None)\<rparr>) = (3000 * Second, True, None)
   \<and> clock (demo\<lparr>GetHeartbeat := (3000 * Second, True, None)\<rparr>) 0 - 3000 * Second \<le> 30 * Minute
   \<and> upserts (reconcile_events (demo\<lparr>GetHeartbeat := (3000 * Second, True, None)\<rparr>) 0) = []
   \<and> fetches (reconcile_events (demo\<lparr>GetHeartbeat := (3000 * Second, True, None)\<rparr>) 0) = []"
proof -
  let ?E = "demo\<lparr>GetHeartbeat := (3000 * Second, True, None)\<rparr>"
  have h: "GetHeartbeat ?E = (3000 * Second, True, None)"
    by simp
  have fresh: "clock ?E 0 - 3000 * Second \<le> 30 * Minute"
    by (simp add: demo_def Minute_def Second_def)
  show ?thesis
    using fresh_heartbeat_no_upserts [OF h fresh] h fresh by simp
qed

text \<open>
  C5. When the members of a configured guild cannot be fetched, the pass logs the failure
  and goes on: the loop continues with the guilds after it from a state that has only
  gained the fetch and the line of the log, every configured guild is fetched, and the
  upserts of the pass are those of the guilds before followed by those of the guilds
  after.
\<close>

theorem failed_guild_fetch_is_skipped:
  assumes "Config E = Some (before @ gcfg # after)"
    and "GuildMembers E (GuildID gcfg) = Inl err"
  shows "fetches (pass_events E k) = map GuildID before @ GuildID gcfg # map GuildID after
       \<and> LogError (''Failed to list members for silent refresh for guild ''
                     @ GuildID gcfg @ '': '' @ err) \<in> set (pass_events E k)
       \<and> upserts (pass_events E k) = stamped E k (guild_pairs E before @ guild_pairs E after)
       \<and> refresh_guilds E (before @ gcfg # after) w =
           refresh_guilds E after
             (emit (LogError (''Failed to list members for silent refresh for guild ''
                       @ GuildID gcfg @ '': '' @ err))
                (emit (GuildMembersCall (GuildID gcfg)) (refresh_guilds E before w)))"
proof -
  let ?log = "LogError (''Failed to list members for silent refresh for guild ''
                     @ GuildID gcfg @ '': '' @ err)"
  have conf: "configured E = before @ gcfg # after"
    using assms(1) by (simp add: configured_def)
  have loop: "refresh_guilds E (before @ gcfg # after) w =
           refresh_guilds E after
             (emit ?log (emit (GuildMembersCall (GuildID gcfg)) (refresh_guilds E before w)))" for w
    using assms(2) by (simp add: refresh_guilds_append Let_def)
  have "?log \<in> set (trace (refresh_guilds E (before @ gcfg # after) w))" for w
    unfolding loop by (subst refresh_guilds_trace) (simp add: emit_def)
  then have "?log \<in> set (pass_events E k)"
    using assms(1) by (simp add: pass_events_def refresh_pass_def Let_def emit_def)
  then show ?thesis
    using loop assms(2)
    by (simp add: pass_events_fetches pass_events_upserts conf guild_pairs_append)
qed

theorem failed_guild_fetch_is_skipped_witness:
  "Config demo = Some ([\<lparr>GuildID = ''g1''\<rparr>] @ \<lparr>GuildID = ''g2''\<rparr> # [\<lparr>GuildID = ''g3''\<rparr>])
   \<and> GuildMembers demo ''g2'' = Inl ''timeout''
   \<and> fetches (pass_events demo 1) = [''g1'', ''g2'', ''g3'']
   \<and> upserts (pass_events demo 1) =
       [UpsertAvatar ''g1'' ''u1'' ''default'' 3600000000001,
        UpsertAvatar ''g1'' ''u2'' ''abc'' 3600000000002,
        UpsertAvatar ''g3'' ''u1'' ''default'' 3600000000003,
        UpsertAvatar ''g3'' ''u2'' ''abc'' 3600000000004]"
proof -
  have c: "Config demo = Some ([\<lparr>GuildID = ''g1''\<rparr>] @ \<lparr>GuildID = ''g2''\<rparr> # [\<lparr>GuildID = ''g3''\<rparr>])"
    by (simp add: demo_def)
  have f: "GuildMembers demo (GuildID \<lparr>GuildID = ''g2''\<rparr>) = Inl ''timeout''"
    by (simp add: demo_def)
  have pairs: "stamped demo 1 (guild_pairs demo [\<lparr>GuildID = ''g1''\<rparr>]
                 @ guild_pairs demo [\<lparr>GuildID = ''g3''\<rparr>]) =
       [UpsertAvatar ''g1'' ''u1'' ''default'' 3600000000001,
        UpsertAvatar ''g1'' ''u2'' ''abc'' 3600000000002,
        UpsertAvatar ''g3'' ''u1'' ''default'' 3600000000003,
        UpsertAvatar ''g3'' ''u2'' ''abc'' 3600000000004]"
    by (simp add: guild_pairs_def valid_users_def avatarHash_def demo_def Second_def)
  show ?thesis
    using failed_guild_fetch_is_skipped [OF c f, where k = 1] c f pairs by simp
qed

text \<open>
  C7. Every effect of the refresh pass is a cache upsert, a read of a guild's members or
  a line of the log; the pass sends no notification.
\<close>

theorem refresh_pass_sends_no_notification:
  "list_all pass_effect (pass_events E k) \<and> (\<forall>m. Notify m \<notin> set (pass_events E k))"
  using pass_events_pass_effect [of E k] by (auto simp: list_all_iff)

theorem refresh_pass_sends_no_notification_witness:
  "list_all pass_effect (pass_events demo 1) \<and> length (pass_events demo 1) = 10"
proof -
  have "length (pass_events demo 1) = 10"
    by (simp add: pass_events_def refresh_pass_def demo_def emit_def Now_def Let_def)
  then show ?thesis
    using refresh_pass_sends_no_notification [of demo 1] by simp
qed

text \<open>
  C10. Every cache upsert of the reconciliation carries a non-empty avatar value: the
  member loop makes no upsert for a nil member or for a member without user, and for a
  user whose avatar hash is empty it upserts \<^verbatim>\<open>"default"\<close>.
\<close>

theorem upserts_carry_nonempty_avatar:
  "(\<forall>g u a t. UpsertAvatar g u a t \<in> set (reconcile_events E k) \<longrightarrow> a \<noteq> [])
   \<and> refresh_members E gid (None # ms) w = refresh_members E gid ms w
   \<and> refresh_members E gid (Some \<lparr>User = None\<rparr> # ms) w = refresh_members E gid ms w
   \<and> refresh_members E gid (Some \<lparr>User = Some \<lparr>ID = uid, Avatar = []\<rparr>\<rparr> # ms) w =
       refresh_members E gid ms
         (emit (UpsertAvatar gid uid ''default'' (clock E (ticks w))) (w\<lparr>ticks := Suc (ticks w)\<rparr>))"
proof -
  obtain k' ps where "upserts (reconcile_events E k) = stamped E k' ps"
    using reconcile_events_upserts by blast
  then have "\<forall>g u a t. UpsertAvatar g u a t \<in> set (reconcile_events E k) \<longrightarrow> a \<noteq> []"
    using in_upserts stamped_nonempty by metis
  then show ?thesis by (simp add: Now_def avatarHash_def)
qed

theorem upserts_carry_nonempty_avatar_witness:
  "UpsertAvatar ''g1'' ''u1'' ''default'' 3600000000001 \<in> set (reconcile_events demo 0)
   \<and> ''default'' \<noteq> []
   \<and> trace (refresh_members demo ''g1''
        [None, Some \<lparr>User = None\<rparr>, Some \<lparr>User = Some \<lparr>ID = ''u1'', Avatar = []\<rparr>\<rparr>] w0) =
       [UpsertAvatar ''g1'' ''u1'' ''default'' 3600000000000]"
proof -
  have "UpsertAvatar ''g1'' ''u1'' ''default'' 3600000000001 \<in> set (reconcile_events demo 0)"
    by (simp add: reconcile_events_def reconcile_def downtime_detected_def refresh_pass_def
          Sub_def maxDuration_def minDuration_def Minute_def Second_def avatarHash_def
          demo_def emit_def Now_def Let_def)
  moreover have "trace (refresh_members demo ''g1'' [] (emit (UpsertAvatar ''g1'' ''u1'' ''default''
      (clock demo (ticks w0))) (w0\<lparr>ticks := Suc (ticks w0)\<rparr>))) =
       [UpsertAvatar ''g1'' ''u1'' ''default'' 3600000000000]"
    by (simp add: w0_def emit_def demo_def Second_def)
  ultimately show ?thesis
    using upserts_carry_nonempty_avatar [of demo 0 "''g1''" "[]" w0 "''u1''"]
      upserts_carry_nonempty_avatar [of demo 0 "''g1''"
        "[Some \<lparr>User = Some \<lparr>ID = ''u1'', Avatar = []\<rparr>\<rparr>]" w0]
      upserts_carry_nonempty_avatar [of demo 0 "''g1''"
        "[Some \<lparr>User = None\<rparr>, Some \<lparr>User = Some \<lparr>ID = ''u1'', Avatar = []\<rparr>\<rparr>]" w0]
    by simp
qed

section \<open>Claims on the boot sequence and the shutdown\<close>

text \<open>
  C9. When reading the last heartbeat returns an error, the reconciliation logs the
  failure, makes no upsert and fetches no members, and still writes a fresh heartbeat; the
  boot goes on with the service phase, whose events and status are those of any boot.
\<close>

theorem heartbeat_read_error_skips_pass:
  assumes "GetHeartbeat E = (lastHB, ok, Some e)"
  shows "reconcile_events E k =
           [GetHeartbeatCall,
            LogError (''Failed to read last heartbeat; skipping downtime check: '' @ e),
            SetHeartbeatCall (clock E k)]
       \<and> upserts (reconcile_events E k) = []
       \<and> fetches (reconcile_events E k) = []
       \<and> trace (snd (boot E w0)) =
           (if storeNil E then []
            else [GetHeartbeatCall,
                  LogError (''Failed to read last heartbeat; skipping downtime check: '' @ e),
                  SetHeartbeatCall (clock E 0)]) @ events_of (services E)
       \<and> fst (boot E w0) = status_of (services E)
       \<and> (\<exists>rest. events_of (services E) = NewServiceManager # rest)"
  using reconcile_events_error [OF assms]
  by (simp add: boot_trace boot_status services_events)

theorem heartbeat_read_error_skips_pass_witness:
  "GetHeartbeat (demo\<lparr>GetHeartbeat := (0, False, Some ''disk I/O error'')\<rparr>) =
     (0, False, Some ''disk I/O error'')
   \<and> reconcile_events (demo\<lparr>GetHeartbeat := (0, False, Some ''disk I/O error'')\<rparr>) 0 =
       [GetHeartbeatCall,
        LogError ''Failed to read last heartbeat; skipping downtime check: disk I/O error'',
        SetHeartbeatCall 3600000000000]
   \<and> fst (boot (demo\<lparr>GetHeartbeat := (0, False, Some ''disk I/O error'')\<rparr>) w0) = Return"
proof -
  let ?E = "demo\<lparr>GetHeartbeat := (0, False, Some ''disk I/O error'')\<rparr>"
  have h: "GetHeartbeat ?E = (0, False, Some ''disk I/O error'')"
    by simp
  have "status_of (services ?E) = Return"
    by (simp add: status_of_def stage_defs demo_def w0_def)
  moreover have "clock ?E 0 = 3600000000000"
    by (simp add: demo_def Second_def)
  ultimately show ?thesis
    using heartbeat_read_error_skips_pass [OF h, of 0] h by simp
qed

text \<open>
  C3, amended. The reconciliation ends with the write of the heartbeat, and the value
  written is fresh: it is the reading of the clock taken for the write, reading number
  \<open>n\<close> when \<open>n\<close> readings were taken before, so later than the reading stamped on any
  upsert. Before the write there are only the read of the heartbeat and the effects of a
  pass, taken or skipped, so no call of \<^verbatim>\<open>StartAll\<close> and no start hook. In the boot the
  write is followed by the events of the service phase, which hold every start hook and no
  fetch, upsert or heartbeat call (the write is inside the guard of line 114, which the
  model keeps). The result of the write changes nothing in the boot: a failure is
  discarded (\<^verbatim>\<open>_ = store.SetHeartbeat(time.Now())\<close>), it is not reported and it does not
  abort the boot.
\<close>

theorem heartbeat_written_before_services:
  "\<exists>pre n.
      reconcile E w0 = \<lparr>ticks = Suc n, trace = pre @ [SetHeartbeatCall (clock E n)]\<rparr>
    \<and> (\<forall>g u a t. UpsertAvatar g u a t \<in> set pre \<longrightarrow> (\<exists>i<n. t = clock E i))
    \<and> list_all (\<lambda>e. e = GetHeartbeatCall \<or> pass_effect e) pre
    \<and> StartAllCall \<notin> set pre \<and> (\<forall>m. StartHook m \<notin> set pre)
    \<and> trace (snd (boot E w0)) =
        (if storeNil E then [] else pre @ [SetHeartbeatCall (clock E n)]) @ events_of (services E)
    \<and> fst (boot E w0) = status_of (services E)
    \<and> \<not> list_ex reconcile_only (events_of (services E))
    \<and> boot (E\<lparr>SetHeartbeat := r\<rparr>) w0 = boot E w0"
proof -
  obtain pre n where w: "reconcile E w0 = \<lparr>ticks = Suc n, trace = pre @ [SetHeartbeatCall (clock E n)]\<rparr>"
    and stamps: "\<forall>g u a t. UpsertAvatar g u a t \<in> set pre \<longrightarrow> (\<exists>i<n. t = clock E i)"
    and pre: "list_all (\<lambda>e. e = GetHeartbeatCall \<or> pass_effect e) pre"
    using reconcile_shape by blast
  have none: "StartAllCall \<notin> set pre \<and> (\<forall>m. StartHook m \<notin> set pre)"
    using pre by (auto simp: list_all_iff)
  have "reconcile_events E 0 = pre @ [SetHeartbeatCall (clock E n)]"
    using w by (simp add: reconcile_events_def w0_def)
  then have tr: "trace (snd (boot E w0)) =
        (if storeNil E then [] else pre @ [SetHeartbeatCall (clock E n)]) @ events_of (services E)"
    by (simp add: boot_trace)
  show ?thesis
    using w stamps pre none tr boot_status [of E] services_no_reconcile [of E]
      boot_SetHeartbeat [where E = E and r = r and w = w0]
    by blast
qed

theorem heartbeat_written_before_services_witness:
  "\<exists>pre. reconcile demo w0 = \<lparr>ticks = 6, trace = pre @ [SetHeartbeatCall 3600000000005]\<rparr>
      \<and> UpsertAvatar ''g3'' ''u2'' ''abc'' 3600000000004 \<in> set pre
      \<and> trace (snd (boot demo w0)) =
          pre @ SetHeartbeatCall 3600000000005 # events_of (services demo)"
proof -
  obtain pre n where w: "reconcile demo w0 =
        \<lparr>ticks = Suc n, trace = pre @ [SetHeartbeatCall (clock demo n)]\<rparr>"
    and tr: "trace (snd (boot demo w0)) =
        (if storeNil demo then [] else pre @ [SetHeartbeatCall (clock demo n)])
          @ events_of (services demo)"
    using heartbeat_written_before_services [of demo] by blast
  have run: "reconcile demo w0 =
      \<lparr>ticks = 6,
       trace = [GetHeartbeatCall,
         LogInfo ''Detected downtime > 30m; performing silent avatar refresh before enabling notifications'',
         GuildMembersCall ''g1'',
         UpsertAvatar ''g1'' ''u1'' ''default'' 3600000000001,
         UpsertAvatar ''g1'' ''u2'' ''abc'' 3600000000002,
         GuildMembersCall ''g2'',
         LogError ''Failed to list members for silent refresh for guild g2: timeout'',
         GuildMembersCall ''g3'',
         UpsertAvatar ''g3'' ''u1'' ''default'' 3600000000003,
         UpsertAvatar ''g3'' ''u2'' ''abc'' 3600000000004,
         LogInfo ''Silent avatar refresh completed''] @ [SetHeartbeatCall 3600000000005]\<rparr>"
    by (simp add: reconcile_def downtime_detected_def refresh_pass_def
          Sub_def maxDuration_def minDuration_def Minute_def Second_def avatarHash_def
          demo_def emit_def Now_def Let_def w0_def)
  have n: "n = 5" using w run by simp
  have clk: "clock demo 5 = 3600000000005"
    by (simp add: demo_def Second_def)
  have store: "\<not> storeNil demo"
    by (simp add: demo_def)
  have pre: "pre = [GetHeartbeatCall,
         LogInfo ''Detected downtime > 30m; performing silent avatar refresh before enabling notifications'',
         GuildMembersCall ''g1'',
         UpsertAvatar ''g1'' ''u1'' ''default'' 3600000000001,
         UpsertAvatar ''g1'' ''u2'' ''abc'' 3600000000002,
         GuildMembersCall ''g2'',
         LogError ''Failed to list members for silent refresh for guild g2: timeout'',
         GuildMembersCall ''g3'',
         UpsertAvatar ''g3'' ''u1'' ''default'' 3600000000003,
         UpsertAvatar ''g3'' ''u2'' ''abc'' 3600000000004,
         LogInfo ''Silent avatar refresh completed'']"
    using w run by simp
  have "reconcile demo w0 = \<lparr>ticks = 6, trace = pre @ [SetHeartbeatCall 3600000000005]\<rparr>"
    using w n clk by simp
  moreover have "UpsertAvatar ''g3'' ''u2'' ''abc'' 3600000000004 \<in> set pre"
    unfolding pre by simp
  moreover have "trace (snd (boot demo w0)) =
          pre @ SetHeartbeatCall 3600000000005 # events_of (services demo)"
    using tr store n clk by simp
  ultimately show ?thesis by blast
qed

text \<open>
  C3 as stated fails: in this boot the write of the heartbeat fails and the boot runs to
  its end, yet no error is logged, and the trace is the one of the boot whose write
  succeeds.
\<close>

theorem heartbeat_write_failure_unreported:
  "SetHeartbeat demo_fresh = Some ''database is locked''
   \<and> \<not> storeNil demo_fresh
   \<and> SetHeartbeatCall 3600000000001 \<in> set (trace (snd (boot demo_fresh w0)))
   \<and> (\<forall>m. LogError m \<notin> set (trace (snd (boot demo_fresh w0))))
   \<and> trace (snd (boot demo_fresh w0)) =
       trace (snd (boot (demo_fresh\<lparr>SetHeartbeat := None\<rparr>) w0))"
  by (simp add: demo_fresh_trace boot_SetHeartbeat) (simp add: demo_fresh_def demo_def)

text \<open>
  C6. The deferred function calls \<^verbatim>\<open>StopAll\<close> and, once it has returned, with an error or
  without one, closes the store (inside the guard of line 229, which the model keeps) and
  cancels the context; while \<^verbatim>\<open>StopAll\<close> has not returned the store is not closed. Every
  run of \<^verbatim>\<open>main\<close> that returns ends with the call of \<^verbatim>\<open>StopAll\<close>, the stop hooks it
  invoked, the log line for its error, the close and the cancel, with no stop hook and no
  close before that call. Wherever the store is closed in a run, this is what precedes
  the close, and only the cancel follows it.
\<close>

theorem store_closed_after_stop_hooks:
  "shutdown E w =
     (case StopAll E (registered E) of
        Blocked hooks \<Rightarrow>
          (Stuck, w\<lparr>trace := trace w @
             [LogInfo ''Shutting down services...'', WithTimeout (30 * Second), StopAllCall]
             @ map StopHook hooks\<rparr>)
      | Done hooks err \<Rightarrow>
          (Return, w\<lparr>trace := trace w @
             [LogInfo ''Shutting down services...'', WithTimeout (30 * Second), StopAllCall]
             @ map StopHook hooks @ stop_log err
             @ (if storeNil E then [] else [StoreClose]) @ [ShutdownCancel]\<rparr>))
   \<and> (fst (boot E w0) = Return \<longrightarrow>
        (\<exists>zs hooks err. StopAll E (registered E) = Done hooks err
           \<and> trace (snd (boot E w0)) =
               zs @ StopAllCall # map StopHook hooks @ stop_log err
                 @ (if storeNil E then [] else [StoreClose]) @ [ShutdownCancel]
           \<and> \<not> list_ex stop_phase zs))
   \<and> (\<forall>xs ys. trace (snd (boot E w0)) = xs @ StoreClose # ys \<longrightarrow>
        (\<exists>zs hooks err. StopAll E (registered E) = Done hooks err
           \<and> xs = zs @ StopAllCall # map StopHook hooks @ stop_log err
           \<and> \<not> list_ex stop_phase zs
           \<and> ys = [ShutdownCancel]))"
proof (intro conjI impI allI)
  show "shutdown E w =
     (case StopAll E (registered E) of
        Blocked hooks \<Rightarrow>
          (Stuck, w\<lparr>trace := trace w @
             [LogInfo ''Shutting down services...'', WithTimeout (30 * Second), StopAllCall]
             @ map StopHook hooks\<rparr>)
      | Done hooks err \<Rightarrow>
          (Return, w\<lparr>trace := trace w @
             [LogInfo ''Shutting down services...'', WithTimeout (30 * Second), StopAllCall]
             @ map StopHook hooks @ stop_log err
             @ (if storeNil E then [] else [StoreClose]) @ [ShutdownCancel]\<rparr>))"
    by (rule shutdown_result)
next
  assume "fst (boot E w0) = Return"
  then show "\<exists>zs hooks err. StopAll E (registered E) = Done hooks err
           \<and> trace (snd (boot E w0)) =
               zs @ StopAllCall # map StopHook hooks @ stop_log err
                 @ (if storeNil E then [] else [StoreClose]) @ [ShutdownCancel]
           \<and> \<not> list_ex stop_phase zs"
    using boot_returns [of E] unfolding closes_on_return_def by blast
next
  fix xs ys
  assume split: "trace (snd (boot E w0)) = xs @ StoreClose # ys"
  then have "StoreClose \<in> set (trace (snd (boot E w0)))"
    by simp
  then obtain zs hooks err where ret: "StopAll E (registered E) = Done hooks err"
    and tr: "trace (snd (boot E w0)) =
               zs @ StopAllCall # map StopHook hooks @ stop_log err @ [StoreClose, ShutdownCancel]"
    and zs: "\<not> list_ex stop_phase zs"
    using boot_shape [of E] unfolding closes_after_stop_def by blast
  let ?A = "zs @ StopAllCall # map StopHook hooks @ stop_log err"
  have "StoreClose \<notin> set ?A"
    using zs by (auto simp: list_ex_iff)
  moreover have "xs @ StoreClose # ys = ?A @ [StoreClose, ShutdownCancel]"
    using split tr by simp
  ultimately have "xs = ?A \<and> ys = [ShutdownCancel]"
    by (intro first_occurrence) simp_all
  then show "\<exists>zs hooks err. StopAll E (registered E) = Done hooks err
           \<and> xs = zs @ StopAllCall # map StopHook hooks @ stop_log err
           \<and> \<not> list_ex stop_phase zs
           \<and> ys = [ShutdownCancel]"
    using ret zs by blast
qed

theorem store_closed_after_stop_hooks_witness:
  "fst (boot demo_stop_fails w0) = Return
   \<and> (\<exists>zs. trace (snd (boot demo_stop_fails w0)) =
         zs @ [StopAllCall, StopHook ''automod'', StopHook ''monitoring'',
               LogError ''Some services failed to stop cleanly: monitoring: connection reset'',
               StoreClose, ShutdownCancel]
       \<and> \<not> list_ex stop_phase zs)"
proof -
  have ret: "fst (boot demo_stop_fails w0) = Return"
    by (simp add: boot_status services_status register_services_status start_all_status
          setup_commands_status wait_and_stop_status shutdown_status
          demo_stop_fails_def demo_fresh_def demo_def)
  have stop: "StopAll demo_stop_fails (registered demo_stop_fails) =
        Done [''automod'', ''monitoring''] (Some ''monitoring: connection reset'')"
    and store: "\<not> storeNil demo_stop_fails"
    by (simp_all add: demo_stop_fails_def demo_fresh_def demo_def)
  from store_closed_after_stop_hooks [of demo_stop_fails w0] ret
  obtain zs hooks err where "StopAll demo_stop_fails (registered demo_stop_fails) = Done hooks err"
    and "trace (snd (boot demo_stop_fails w0)) =
               zs @ StopAllCall # map StopHook hooks @ stop_log err
                 @ (if storeNil demo_stop_fails then [] else [StoreClose]) @ [ShutdownCancel]"
    and "\<not> list_ex stop_phase zs"
    by blast
  then show ?thesis
    using ret stop store by (auto simp: stop_log_def)
qed

section \<open>Claim on the start order\<close>

text \<open>
  C8. For registered services whose dependencies are all registered and whose dependency
  graph is acyclic, the start order of the specification's \<^verbatim>\<open>StartAll\<close> exists and holds
  every registered service once; every service comes after all of its dependencies; and
  whenever a service is started later than another although all of its dependencies had
  started before that other one, the other one has the higher priority, or the same
  priority and the earlier registration. When every start hook returns nil, the hooks are
  invoked in that order. For the two services that \<^verbatim>\<open>main\<close> registers, the order
  is monitoring, then automod: the hook of automod is invoked only after the hook of
  monitoring has returned nil.
\<close>

theorem start_order_by_dependency_and_priority:
  assumes "\<forall>s \<in> set svcs. set (deps s) \<subseteq> set (map name svcs)"
    and "acyclic (dep_graph svcs)"
  shows "\<exists>ord. start_order (enumerate 0 svcs) [] = Inr ord
           \<and> resolve svcs = Inr (map snd ord)
           \<and> distinct ord \<and> set ord = set (enumerate 0 svcs)
           \<and> (\<forall>pre e post. ord = pre @ e # post \<longrightarrow>
                 set (deps (snd e)) \<subseteq> set (started_names pre))
           \<and> (\<forall>pre e mid t post. ord = pre @ e # mid @ t # post
                 \<and> set (deps (snd t)) \<subseteq> set (started_names pre) \<longrightarrow> precedes e t)
           \<and> ((\<forall>s \<in> set svcs. start s = Returns None) \<longrightarrow>
                 StartAll_spec svcs = Done (started_names ord) None)
           \<and> resolve (registered E) = Inr [monitoringWrapper E, automodWrapper E]
           \<and> StartAll_spec (registered E) =
               (case monitoringStart E of
                  Hangs \<Rightarrow> Blocked [''monitoring'']
                | Returns (Some cause) \<Rightarrow>
                    Done [''monitoring''] (Some (describe (StartFailure ''monitoring'' cause)))
                | Returns None \<Rightarrow>
                    (case automodStart E of
                       Hangs \<Rightarrow> Blocked [''monitoring'', ''automod'']
                     | Returns u \<Rightarrow> Done [''monitoring'', ''automod''] None))"
proof -
  have sub: "snd ` set (enumerate 0 svcs) \<subseteq> set svcs"
    by (auto simp: in_set_enumerate_eq)
  have "map (\<lambda>e. name (snd e)) (enumerate n xs) = map name xs" for n xs
    by (induction xs arbitrary: n) simp_all
  then have "started_names (enumerate 0 svcs) = map name svcs"
    unfolding started_names_def by blast
  then have names: "set (started_names (enumerate 0 svcs)) = set (map name svcs)"
    by (rule arg_cong)
  have deps': "\<forall>e \<in> set (enumerate 0 svcs). set (deps (snd e)) \<subseteq>
           set (started_names []) \<union> set (started_names (enumerate 0 svcs))"
    using assms(1) sub unfolding names by auto
  obtain ord where ord: "start_order (enumerate 0 svcs) [] = Inr ord"
    using start_order_total [OF assms(2) sub deps'] by blast
  have "distinct (map fst (enumerate 0 svcs))"
    by simp
  from start_order_greedy [OF ord this]
  have greedy: "distinct ord" "set ord = set (enumerate 0 svcs)"
    "\<forall>pre e post. ord = pre @ e # post \<longrightarrow> ready pre e"
    "\<forall>pre e mid t post. ord = pre @ e # mid @ t # post \<and> ready pre t \<longrightarrow> precedes e t"
    by auto
  have "unknown_dependency svcs = None"
    using assms(1) by (simp add: unknown_dependency_None)
  then have res: "resolve svcs = Inr (map snd ord)"
    using ord by (simp add: resolve_def)
  have run: "StartAll_spec (registered E) =
               (case monitoringStart E of
                  Hangs \<Rightarrow> Blocked [''monitoring'']
                | Returns (Some cause) \<Rightarrow>
                    Done [''monitoring''] (Some (describe (StartFailure ''monitoring'' cause)))
                | Returns None \<Rightarrow>
                    (case automodStart E of
                       Hangs \<Rightarrow> Blocked [''monitoring'', ''automod'']
                     | Returns u \<Rightarrow> Done [''monitoring'', ''automod''] None))"
    by (simp add: StartAll_spec_def registered_resolve monitoringWrapper_def automodWrapper_def
          split: outcome.splits option.splits)
  have all: "StartAll_spec svcs = Done (started_names ord) None"
    if "\<forall>s \<in> set svcs. start s = Returns None"
  proof -
    have "\<forall>s \<in> set (map snd ord). start s = Returns None"
      using that greedy(2) sub by auto
    then have "run_starts (map snd ord) = Done (map name (map snd ord)) None"
      by (rule run_starts_all)
    then show ?thesis
      using res by (simp add: StartAll_spec_def started_names_def)
  qed
  show ?thesis
    using ord res greedy registered_resolve [of E] run all
    unfolding ready_iff by blast
qed

theorem start_order_by_dependency_and_priority_witness:
  "unknown_dependency (registered demo) = None
   \<and> dep_graph (registered demo) = {}
   \<and> start_order (enumerate 0 (registered demo)) [] =
       Inr [(0, monitoringWrapper demo), (1, automodWrapper demo)]
   \<and> StartAll_spec (registered demo) = Done [''monitoring'', ''automod''] None
   \<and> unknown_dependency spec_example = None
   \<and> dep_graph spec_example = {(''Z'', ''X''), (''Y'', ''X'')}
   \<and> StartAll_spec spec_example = Done [''X'', ''Y'', ''Z''] None"
proof -
  have d: "\<forall>s \<in> set (registered demo). set (deps s) \<subseteq> set (map name (registered demo))"
    by (simp add: registered_def monitoringWrapper_def automodWrapper_def)
  have g: "dep_graph (registered demo) = {}"
    by (simp add: dep_graph_def registered_def monitoringWrapper_def automodWrapper_def)
  then have a: "acyclic (dep_graph (registered demo))"
    by (simp add: acyclic_def)
  have hooks: "monitoringStart demo = Returns None" "automodStart demo = Returns ()"
    by (simp_all add: demo_def)
  have program: "unknown_dependency (registered demo) = None
     \<and> dep_graph (registered demo) = {}
     \<and> start_order (enumerate 0 (registered demo)) [] =
         Inr [(0, monitoringWrapper demo), (1, automodWrapper demo)]
     \<and> StartAll_spec (registered demo) = Done [''monitoring'', ''automod''] None"
    using start_order_by_dependency_and_priority [OF d a, of demo] d g hooks
    by (simp add: unknown_dependency_None registered_order)
  have d': "\<forall>s \<in> set spec_example. set (deps s) \<subseteq> set (map name spec_example)"
    by (simp add: spec_example_def svc_def)
  have all: "\<forall>s \<in> set spec_example. start s = Returns None"
    by (simp add: spec_example_def svc_def)
  obtain ord where "resolve spec_example = Inr (map snd ord)"
    and "StartAll_spec spec_example = Done (started_names ord) None"
    using start_order_by_dependency_and_priority [OF d' spec_example_acyclic, of demo] all by blast
  then have "StartAll_spec spec_example = Done [''X'', ''Y'', ''Z''] None"
    using spec_example_order
    by (cases ord) (auto simp: started_names_def svc_def)
  then show ?thesis
    using program d' spec_example_graph by (simp add: unknown_dependency_None)
qed

end
